theory Spec2Isabelle
  imports Main
begin

section \<open>Grid, directions and power-up kinds\<close>

text \<open>
  The module constants of \<^verbatim>\<open>snake_game.py\<close>. Python's \<^verbatim>\<open>//\<close> on positive operands is
  \<open>div\<close>.
\<close>

definition WINDOW_WIDTH :: int where "WINDOW_WIDTH = 800"
definition WINDOW_HEIGHT :: int where "WINDOW_HEIGHT = 600"
definition GRID_SIZE :: int where "GRID_SIZE = 20"
definition GRID_WIDTH :: int where "GRID_WIDTH = WINDOW_WIDTH div GRID_SIZE"
definition GRID_HEIGHT :: int where "GRID_HEIGHT = WINDOW_HEIGHT div GRID_SIZE"

type_synonym cell = "int \<times> int"

text \<open>\<^verbatim>\<open>class Direction(Enum)\<close>; \<open>delta\<close> is the member's \<^verbatim>\<open>.value\<close>.\<close>

datatype Direction = UP | DOWN | LEFT | RIGHT

fun delta :: "Direction \<Rightarrow> int \<times> int" where
  "delta UP = (0, -1)"
| "delta DOWN = (0, 1)"
| "delta LEFT = (-1, 0)"
| "delta RIGHT = (1, 0)"

text \<open>Iterating over the enumeration (\<^verbatim>\<open>for direction in Direction\<close>) follows definition order.\<close>

definition Direction_members :: "Direction list" where
  "Direction_members = [UP, DOWN, LEFT, RIGHT]"

datatype PowerUpType = SPEED_BOOST | SLOW_DOWN | DOUBLE_POINTS | INVINCIBILITY

definition PowerUpType_members :: "PowerUpType list" where
  "PowerUpType_members = [SPEED_BOOST, SLOW_DOWN, DOUBLE_POINTS, INVINCIBILITY]"

text \<open>
  \<^verbatim>\<open>class PowerUp\<close>: position, kind and the fixed duration of 5000 ms. The colour is a
  function of the kind and is used by rendering only.
\<close>

record PowerUp =
  pu_x :: int
  pu_y :: int
  pu_type :: PowerUpType
  duration :: int

definition new_PowerUp :: "int \<Rightarrow> int \<Rightarrow> PowerUpType \<Rightarrow> PowerUp" where
  "new_PowerUp px py power_type = \<lparr>pu_x = px, pu_y = py, pu_type = power_type, duration = 5000\<rparr>"

section \<open>Errors and the random source\<close>

text \<open>
  \<open>IndexError\<close> is what \<^verbatim>\<open>self.body[0]\<close> and \<^verbatim>\<open>self.body[-1]\<close> raise on an empty deque.
  The random module is modelled by a tape of raw draws, one natural number per call;
  \<open>OutOfDraws\<close> says that the tape ended before the computation did, so a rejection
  loop that has not accepted a cell by then yields \<open>Inl OutOfDraws\<close> instead of a result.
\<close>

datatype error = IndexError | OutOfDraws

type_synonym rng = "nat list"

text \<open>\<^verbatim>\<open>random.randint(a, b)\<close>: an integer in the closed range from \<open>a\<close> to \<open>b\<close>.\<close>

fun randint :: "int \<Rightarrow> int \<Rightarrow> rng \<Rightarrow> error + (int \<times> rng)" where
  "randint a b [] = Inl OutOfDraws"
| "randint a b (n # r) = Inr (a + int n mod (b - a + 1), r)"

text \<open>
  \<^verbatim>\<open>random.random() < p / 10\<close>: the draw \<open>n\<close> stands for the float \<open>(n mod 2^53) / 2^53\<close>
  in the half-open unit interval.
\<close>

fun random_below :: "nat \<Rightarrow> rng \<Rightarrow> error + (bool \<times> rng)" where
  "random_below p [] = Inl OutOfDraws"
| "random_below p (n # r) = Inr (10 * (n mod 2 ^ 53) < p * 2 ^ 53, r)"

text \<open>\<^verbatim>\<open>random.choice(list(PowerUpType))\<close>.\<close>

fun choice_PowerUpType :: "rng \<Rightarrow> error + (PowerUpType \<times> rng)" where
  "choice_PowerUpType [] = Inl OutOfDraws"
| "choice_PowerUpType (n # r) = Inr (PowerUpType_members ! (n mod length PowerUpType_members), r)"

section \<open>The snake\<close>

text \<open>
  \<^verbatim>\<open>class Snake\<close>. The deque \<^verbatim>\<open>body\<close> is a list with the head first; \<^verbatim>\<open>power_ups\<close> is the
  dictionary from power-up kind to the activation time. The attributes \<^verbatim>\<open>color\<close> and
  \<^verbatim>\<open>speed_multiplier\<close> are written once by the constructor and read by no method below.
\<close>

record Snake =
  body :: "cell list"
  direction :: Direction
  score :: int
  is_ai :: bool
  alive :: bool
  power_ups :: "PowerUpType \<rightharpoonup> int"

definition new_Snake :: "int \<Rightarrow> int \<Rightarrow> bool \<Rightarrow> Snake" where
  "new_Snake sx sy ai =
     \<lparr>body = [(sx, sy)], direction = RIGHT, score = 0, is_ai = ai, alive = True,
      power_ups = Map.empty\<rparr>"

text \<open>
  \<^verbatim>\<open>Snake.move\<close>: \<^verbatim>\<open>appendleft(new_head)\<close>, then \<^verbatim>\<open>pop()\<close> from the right end unless growing.
\<close>

definition move :: "Snake \<Rightarrow> bool \<Rightarrow> error + Snake" where
  "move s grow_flag =
     (case body s of
        [] \<Rightarrow> Inl IndexError
      | (head_x, head_y) # _ \<Rightarrow>
          (case delta (direction s) of (dx, dy) \<Rightarrow>
             let new_head = (head_x + dx, head_y + dy);
                 appended = new_head # body s
             in Inr (s\<lparr>body := (if \<not> grow_flag then butlast appended else appended)\<rparr>)))"

text \<open>\<^verbatim>\<open>Snake.grow\<close>: append a copy of the tail cell.\<close>

definition grow :: "Snake \<Rightarrow> error + Snake" where
  "grow s =
     (case body s of
        [] \<Rightarrow> Inl IndexError
      | _ # _ \<Rightarrow> Inr (s\<lparr>body := body s @ [last (body s)]\<rparr>))"

text \<open>
  \<^verbatim>\<open>Snake.check_collision(obstacles=None)\<close>. The argument is \<open>None\<close> or a set; an empty set
  is falsy, so \<^verbatim>\<open>obstacles and head in obstacles\<close> is membership in both cases. The method
  assigns nothing, so the model returns the answer only.
\<close>

definition check_collision :: "Snake \<Rightarrow> cell set option \<Rightarrow> error + bool" where
  "check_collision s obs =
     (case body s of
        [] \<Rightarrow> Inl IndexError
      | (head_x, head_y) # rest \<Rightarrow>
          if head_x < 0 \<or> head_x \<ge> GRID_WIDTH \<or> head_y < 0 \<or> head_y \<ge> GRID_HEIGHT then Inr True
          else if (head_x, head_y) \<in> set rest then Inr True
          else if (case obs of None \<Rightarrow> False | Some os \<Rightarrow> os \<noteq> {} \<and> (head_x, head_y) \<in> os)
            then Inr True
          else Inr False)"

subsection \<open>Breadth-first search\<close>

text \<open>
  One pass of the body of \<^verbatim>\<open>for direction in Direction\<close> inside \<^verbatim>\<open>bfs_path\<close>: the state is
  the queue and the visited set.
\<close>

definition try_visit ::
  "cell list \<Rightarrow> cell set \<Rightarrow> cell \<Rightarrow> cell list \<Rightarrow> Direction \<Rightarrow>
   (cell \<times> cell list) list \<times> cell set \<Rightarrow> (cell \<times> cell list) list \<times> cell set" where
  "try_visit sbody obs pos path d st =
     (case st of (queue, visited) \<Rightarrow>
      case pos of (px, py) \<Rightarrow>
      case delta d of (dx, dy) \<Rightarrow>
        let next_pos = (px + dx, py + dy) in
        if next_pos \<notin> visited \<and>
           0 \<le> fst next_pos \<and> fst next_pos < GRID_WIDTH \<and>
           0 \<le> snd next_pos \<and> snd next_pos < GRID_HEIGHT \<and>
           next_pos \<notin> obs \<and>
           next_pos \<notin> set sbody
        then (queue @ [(next_pos, path @ [next_pos])], insert next_pos visited)
        else (queue, visited))"

definition expand ::
  "cell list \<Rightarrow> cell set \<Rightarrow> cell \<Rightarrow> cell list \<Rightarrow>
   (cell \<times> cell list) list \<times> cell set \<Rightarrow> (cell \<times> cell list) list \<times> cell set" where
  "expand sbody obs pos path st = fold (try_visit sbody obs pos path) Direction_members st"

definition grid_cells :: "cell set" where
  "grid_cells = {0..<GRID_WIDTH} \<times> {0..<GRID_HEIGHT}"

lemma finite_grid_cells: "finite grid_cells"
  by (simp add: grid_cells_def)

lemma try_visit_progress:
  assumes "try_visit sbody obs pos path d (q, v) = (q', v')"
  shows "v \<subseteq> v' \<and> ((q' = q \<and> v' = v) \<or> (\<exists>c \<in> grid_cells. c \<in> v' \<and> c \<notin> v))"
proof -
  obtain px py where pos: "pos = (px, py)" by (cases pos)
  obtain dx dy where dl: "delta d = (dx, dy)" by (cases "delta d")
  let ?n = "(px + dx, py + dy)"
  show ?thesis
  proof (cases "?n \<notin> v \<and> 0 \<le> fst ?n \<and> fst ?n < GRID_WIDTH \<and>
                0 \<le> snd ?n \<and> snd ?n < GRID_HEIGHT \<and> ?n \<notin> obs \<and> ?n \<notin> set sbody")
    case True
    with assms pos dl have "v' = insert ?n v" by (simp add: try_visit_def Let_def)
    moreover from True have "?n \<in> grid_cells" by (simp add: grid_cells_def)
    ultimately show ?thesis using True by blast
  next
    case False
    with assms pos dl have "q' = q \<and> v' = v" by (auto simp: try_visit_def Let_def)
    then show ?thesis by simp
  qed
qed

lemma fold_try_visit_progress:
  "fold (try_visit sbody obs pos path) ds (q, v) = (q', v') \<Longrightarrow>
   v \<subseteq> v' \<and> ((q' = q \<and> v' = v) \<or> (\<exists>c \<in> grid_cells. c \<in> v' \<and> c \<notin> v))"
proof (induction ds arbitrary: q v)
  case Nil
  then show ?case by simp
next
  case (Cons d ds)
  obtain q1 v1 where st: "try_visit sbody obs pos path d (q, v) = (q1, v1)"
    by (cases "try_visit sbody obs pos path d (q, v)") auto
  from Cons.prems st have rest: "fold (try_visit sbody obs pos path) ds (q1, v1) = (q', v')"
    by simp
  from try_visit_progress [OF st] Cons.IH [OF rest] show ?case
    by blast
qed

lemma expand_progress:
  "expand sbody obs pos path (q, v) = (q', v') \<Longrightarrow>
   (q' = q \<and> v' = v) \<or> card (grid_cells - v') < card (grid_cells - v)"
proof -
  assume "expand sbody obs pos path (q, v) = (q', v')"
  then have p: "v \<subseteq> v' \<and> ((q' = q \<and> v' = v) \<or> (\<exists>c \<in> grid_cells. c \<in> v' \<and> c \<notin> v))"
    unfolding expand_def by (rule fold_try_visit_progress)
  show ?thesis
  proof (cases "q' = q \<and> v' = v")
    case True
    then show ?thesis by simp
  next
    case False
    with p obtain c where c: "c \<in> grid_cells" "c \<in> v'" "c \<notin> v" by blast
    from p c have "grid_cells - v' \<subset> grid_cells - v" by blast
    then show ?thesis
      using finite_grid_cells by (simp add: psubset_card_mono)
  qed
qed

text \<open>
  The \<^verbatim>\<open>while queue\<close> loop of \<^verbatim>\<open>bfs_path\<close>: \<^verbatim>\<open>popleft\<close>, the goal test, then the four
  directions. It ends because every pass either marks a new cell of the finite grid or
  shortens the queue.
\<close>

function bfs_loop ::
  "cell list \<Rightarrow> cell \<Rightarrow> cell set \<Rightarrow> (cell \<times> cell list) list \<Rightarrow> cell set \<Rightarrow> cell list option" where
  "bfs_loop sbody goal obs [] visited = None"
| "bfs_loop sbody goal obs ((pos, path) # queue) visited =
     (if pos = goal then Some path
      else case expand sbody obs pos path (queue, visited) of
             (queue', visited') \<Rightarrow> bfs_loop sbody goal obs queue' visited')"
  by pat_completeness auto
termination
proof (relation "measures [\<lambda>(sbody, goal, obs, queue, visited). card (grid_cells - visited),
                           \<lambda>(sbody, goal, obs, queue, visited). length queue]", goal_cases)
  case 1
  then show ?case by simp
next
  case (2 sbody goal obs pos path queue visited queue' visited')
  then have e: "expand sbody obs pos path (queue, visited) = (queue', visited')"
    by simp
  from expand_progress [OF e] show ?case
    by auto
qed

text \<open>\<^verbatim>\<open>Snake.bfs_path(start, goal, obstacles=None)\<close>; \<open>None\<close> stands for the empty set.\<close>

definition bfs_path :: "Snake \<Rightarrow> cell \<Rightarrow> cell \<Rightarrow> cell set option \<Rightarrow> cell list option" where
  "bfs_path s start goal obstacles_arg =
     (let obs = (case obstacles_arg of None \<Rightarrow> {} | Some os \<Rightarrow> os)
      in bfs_loop (body s) goal obs [(start, [start])] {start})"

text \<open>
  \<^verbatim>\<open>Snake.ai_move(food_pos, obstacles=None)\<close>. A returned path is truthy when it is not
  empty. The \<^verbatim>\<open>if\<close>/\<^verbatim>\<open>elif\<close> chain on \<open>dx\<close> and \<open>dy\<close> has no final \<^verbatim>\<open>else\<close>: when no branch
  fires the direction stays.
\<close>

definition ai_move :: "Snake \<Rightarrow> cell \<Rightarrow> cell set option \<Rightarrow> error + Snake" where
  "ai_move s food_pos obs =
     (if \<not> is_ai s then Inr s
      else case body s of
        [] \<Rightarrow> Inl IndexError
      | head # _ \<Rightarrow>
          (case bfs_path s head food_pos obs of
             None \<Rightarrow> Inr s
           | Some path \<Rightarrow>
               if path \<noteq> [] \<and> length path > 1 then
                 let next_pos = path ! 1;
                     dx = fst next_pos - fst head;
                     dy = snd next_pos - snd head
                 in if dx = 1 then Inr (s\<lparr>direction := RIGHT\<rparr>)
                    else if dx = -1 then Inr (s\<lparr>direction := LEFT\<rparr>)
                    else if dy = 1 then Inr (s\<lparr>direction := DOWN\<rparr>)
                    else if dy = -1 then Inr (s\<lparr>direction := UP\<rparr>)
                    else Inr s
               else Inr s))"

section \<open>The game\<close>

text \<open>
  The round state of \<^verbatim>\<open>class Game\<close> once \<^verbatim>\<open>init_game\<close> has run: the player, the optional
  AI snake (\<open>None\<close> outside AI battle mode), the food cell, the optional power-up, the
  obstacle set and the \<^verbatim>\<open>running\<close> flag. Screen, clock, fonts, level, mode and high scores
  are touched by none of the methods below.
\<close>

record Game =
  player :: Snake
  ai_snake :: "Snake option"
  food :: cell
  power_up :: "PowerUp option"
  obstacles :: "cell set"
  running :: bool

lemma randint_shorter: "randint a b r = Inr (v, r') \<Longrightarrow> length r' < length r"
  by (cases r) auto

text \<open>
  \<^verbatim>\<open>Game.spawn_food\<close>: the \<^verbatim>\<open>while True\<close> loop draws \<open>x\<close> and \<open>y\<close> and leaves on the first
  cell that is in no snake body and no obstacle.
\<close>

function spawn_food :: "Game \<Rightarrow> rng \<Rightarrow> error + (Game \<times> rng)" where
  "spawn_food g r =
     (case randint 0 (GRID_WIDTH - 1) r of
        Inl e \<Rightarrow> Inl e
      | Inr (cx, r1) \<Rightarrow>
          (case randint 0 (GRID_HEIGHT - 1) r1 of
             Inl e \<Rightarrow> Inl e
           | Inr (cy, r2) \<Rightarrow>
               if (cx, cy) \<notin> set (body (player g)) \<and>
                  (case ai_snake g of None \<Rightarrow> True | Some a \<Rightarrow> (cx, cy) \<notin> set (body a)) \<and>
                  (cx, cy) \<notin> obstacles g
               then Inr (g\<lparr>food := (cx, cy)\<rparr>, r2)
               else spawn_food g r2))"
  by pat_completeness auto
termination
  by (relation "measure (\<lambda>(g, r). length r)") (auto dest!: randint_shorter)

declare spawn_food.simps [simp del]

text \<open>
  \<^verbatim>\<open>Game.spawn_power_up\<close>: with \<^verbatim>\<open>random.random() < 0.3\<close>, the \<^verbatim>\<open>while True\<close> loop draws a
  cell and leaves on the first one that is not in the player's body, not the food and not an
  obstacle; then the kind is chosen.
\<close>

function spawn_power_up_loop :: "Game \<Rightarrow> rng \<Rightarrow> error + (Game \<times> rng)" where
  "spawn_power_up_loop g r =
     (case randint 0 (GRID_WIDTH - 1) r of
        Inl e \<Rightarrow> Inl e
      | Inr (cx, r1) \<Rightarrow>
          (case randint 0 (GRID_HEIGHT - 1) r1 of
             Inl e \<Rightarrow> Inl e
           | Inr (cy, r2) \<Rightarrow>
               if (cx, cy) \<notin> set (body (player g)) \<and>
                  (cx, cy) \<noteq> food g \<and>
                  (cx, cy) \<notin> obstacles g
               then (case choice_PowerUpType r2 of
                       Inl e \<Rightarrow> Inl e
                     | Inr (power_type, r3) \<Rightarrow>
                         Inr (g\<lparr>power_up := Some (new_PowerUp cx cy power_type)\<rparr>, r3))
               else spawn_power_up_loop g r2))"
  by pat_completeness auto
termination
  by (relation "measure (\<lambda>(g, r). length r)") (auto dest!: randint_shorter)

declare spawn_power_up_loop.simps [simp del]

definition spawn_power_up :: "Game \<Rightarrow> rng \<Rightarrow> error + (Game \<times> rng)" where
  "spawn_power_up g r =
     (case random_below 3 r of
        Inl e \<Rightarrow> Inl e
      | Inr (hit, r1) \<Rightarrow> if hit then spawn_power_up_loop g r1 else Inr (g, r1))"

subsection \<open>Input\<close>

text \<open>
  The events that \<^verbatim>\<open>pygame.event.get()\<close> hands to \<^verbatim>\<open>Game.handle_input\<close> in one frame, in
  queue order. The loop returns early on \<^verbatim>\<open>QUIT\<close> and on the escape key.
\<close>

datatype key = K_UP | K_DOWN | K_LEFT | K_RIGHT | K_ESCAPE | K_OTHER

datatype event = QUIT | KEYDOWN key | OTHER_EVENT

definition set_player_direction :: "Game \<Rightarrow> Direction \<Rightarrow> Game" where
  "set_player_direction g d = g\<lparr>player := (player g)\<lparr>direction := d\<rparr>\<rparr>"

fun handle_input :: "Game \<Rightarrow> event list \<Rightarrow> Game \<times> bool" where
  "handle_input g [] = (g, True)"
| "handle_input g (QUIT # evs) = (g\<lparr>running := False\<rparr>, False)"
| "handle_input g (KEYDOWN k # evs) =
     (if k = K_UP \<and> direction (player g) \<noteq> DOWN then
        handle_input (set_player_direction g UP) evs
      else if k = K_DOWN \<and> direction (player g) \<noteq> UP then
        handle_input (set_player_direction g DOWN) evs
      else if k = K_LEFT \<and> direction (player g) \<noteq> RIGHT then
        handle_input (set_player_direction g LEFT) evs
      else if k = K_RIGHT \<and> direction (player g) \<noteq> LEFT then
        handle_input (set_player_direction g RIGHT) evs
      else if k = K_ESCAPE then (g, False)
      else handle_input g evs)"
| "handle_input g (OTHER_EVENT # evs) = handle_input g evs"

subsection \<open>One simulation tick\<close>

text \<open>\<^verbatim>\<open>body[0]\<close> on the deque.\<close>

definition first_cell :: "cell list \<Rightarrow> error + cell" where
  "first_cell cs = (case cs of [] \<Rightarrow> Inl IndexError | c # _ \<Rightarrow> Inr c)"

text \<open>
  \<^verbatim>\<open>ai_will_eat = self.ai_snake and self.ai_snake.alive and self.ai_snake.body[0] == self.food\<close>,
  read as a truth value.
\<close>

definition ai_will_eat_of :: "Game \<Rightarrow> error + bool" where
  "ai_will_eat_of g =
     (case ai_snake g of
        None \<Rightarrow> Inr False
      | Some a \<Rightarrow>
          if alive a then
            (case first_cell (body a) of Inl e \<Rightarrow> Inl e | Inr h \<Rightarrow> Inr (h = food g))
          else Inr False)"

text \<open>The block \<^verbatim>\<open># Move snakes\<close>: the player, then the living AI snake after its \<^verbatim>\<open>ai_move\<close>.\<close>

definition update_move :: "Game \<Rightarrow> bool \<Rightarrow> bool \<Rightarrow> error + Game" where
  "update_move g player_will_eat ai_will_eat =
     (case move (player g) player_will_eat of
        Inl e \<Rightarrow> Inl e
      | Inr p \<Rightarrow>
          (case ai_snake g of
             None \<Rightarrow> Inr (g\<lparr>player := p\<rparr>)
           | Some a \<Rightarrow>
               if alive a then
                 (case ai_move a (food g) (Some (obstacles g)) of
                    Inl e \<Rightarrow> Inl e
                  | Inr a1 \<Rightarrow>
                      (case move a1 ai_will_eat of
                         Inl e \<Rightarrow> Inl e
                       | Inr a2 \<Rightarrow> Inr (g\<lparr>player := p, ai_snake := Some a2\<rparr>)))
               else Inr (g\<lparr>player := p\<rparr>)))"

text \<open>The block \<^verbatim>\<open>if player_will_eat\<close>: points, new food, and the power-up attempt.\<close>

definition update_player_food :: "Game \<Rightarrow> bool \<Rightarrow> rng \<Rightarrow> error + (Game \<times> rng)" where
  "update_player_food g player_will_eat r =
     (if player_will_eat then
        let points = (10 :: int);
            points = (if DOUBLE_POINTS \<in> dom (power_ups (player g)) then points * 2 else points);
            g1 = g\<lparr>player := (player g)\<lparr>score := score (player g) + points\<rparr>\<rparr>
        in (case spawn_food g1 r of
              Inl e \<Rightarrow> Inl e
            | Inr (g2, r1) \<Rightarrow>
                (case random_below 2 r1 of
                   Inl e \<Rightarrow> Inl e
                 | Inr (hit, r2) \<Rightarrow> if hit then spawn_power_up g2 r2 else Inr (g2, r2)))
      else Inr (g, r))"

text \<open>
  The block \<^verbatim>\<open>if ai_will_eat\<close>. \<open>ai_will_eat\<close> is true only when there is an AI snake; the
  attribute access on \<open>None\<close> is therefore never reached and the model leaves the state as
  it is there.
\<close>

definition update_ai_food :: "Game \<Rightarrow> bool \<Rightarrow> bool \<Rightarrow> rng \<Rightarrow> error + (Game \<times> rng)" where
  "update_ai_food g player_will_eat ai_will_eat r =
     (if ai_will_eat then
        let g1 = (case ai_snake g of
                    None \<Rightarrow> g
                  | Some a \<Rightarrow> g\<lparr>ai_snake := Some (a\<lparr>score := score a + 10\<rparr>)\<rparr>)
        in if \<not> player_will_eat then spawn_food g1 r else Inr (g1, r)
      else Inr (g, r))"

text \<open>
  The block \<^verbatim>\<open># Check power-up collision\<close>; \<open>now\<close> is the value of
  \<^verbatim>\<open>pygame.time.get_ticks()\<close>.
\<close>

definition update_power_up :: "Game \<Rightarrow> int \<Rightarrow> error + Game" where
  "update_power_up g now =
     (case power_up g of
        None \<Rightarrow> Inr g
      | Some pu \<Rightarrow>
          (case first_cell (body (player g)) of
             Inl e \<Rightarrow> Inl e
           | Inr h \<Rightarrow>
               if h = (pu_x pu, pu_y pu) then
                 Inr (g\<lparr>player := (player g)\<lparr>power_ups := (power_ups (player g))(pu_type pu \<mapsto> now)\<rparr>,
                        power_up := None\<rparr>)
               else Inr g))"

text \<open>The block \<^verbatim>\<open># Check collisions\<close>, with the value that \<^verbatim>\<open>update\<close> returns.\<close>

definition update_collisions :: "Game \<Rightarrow> error + (Game \<times> bool)" where
  "update_collisions g =
     (case check_collision (player g) (Some (obstacles g)) of
        Inl e \<Rightarrow> Inl e
      | Inr hit \<Rightarrow>
          if hit then Inr (g\<lparr>player := (player g)\<lparr>alive := False\<rparr>\<rparr>, False)
          else
            (case ai_snake g of
               None \<Rightarrow> Inr (g, True)
             | Some a \<Rightarrow>
                 if alive a then
                   (case check_collision a (Some (obstacles g)) of
                      Inl e \<Rightarrow> Inl e
                    | Inr ai_hit \<Rightarrow>
                        if ai_hit then Inr (g\<lparr>ai_snake := Some (a\<lparr>alive := False\<rparr>)\<rparr>, True)
                        else Inr (g, True))
                 else Inr (g, True)))"

text \<open>\<^verbatim>\<open>Game.update\<close>: the blocks in the order of the source.\<close>

definition update :: "Game \<Rightarrow> int \<Rightarrow> rng \<Rightarrow> error + (Game \<times> bool \<times> rng)" where
  "update g now r =
     (case first_cell (body (player g)) of
        Inl e \<Rightarrow> Inl e
      | Inr player_head \<Rightarrow>
          let player_will_eat = (player_head = food g) in
          (case ai_will_eat_of g of
             Inl e \<Rightarrow> Inl e
           | Inr ai_will_eat \<Rightarrow>
               (case update_move g player_will_eat ai_will_eat of
                  Inl e \<Rightarrow> Inl e
                | Inr g1 \<Rightarrow>
                    (case update_player_food g1 player_will_eat r of
                       Inl e \<Rightarrow> Inl e
                     | Inr (g2, r1) \<Rightarrow>
                         (case update_ai_food g2 player_will_eat ai_will_eat r1 of
                            Inl e \<Rightarrow> Inl e
                          | Inr (g3, r2) \<Rightarrow>
                              (case update_power_up g3 now of
                                 Inl e \<Rightarrow> Inl e
                               | Inr g4 \<Rightarrow>
                                   (case update_collisions g4 of
                                      Inl e \<Rightarrow> Inl e
                                    | Inr (g5, ok) \<Rightarrow> Inr (g5, ok, r2))))))))"

section \<open>Vocabulary of the statements\<close>

text \<open>
  The definitions of this section are not translations of source code: they name the
  quantities that the statements below talk about.
\<close>

text \<open>The body that \<open>move\<close> leaves behind.\<close>

definition moved_body :: "Snake \<Rightarrow> bool \<Rightarrow> cell list" where
  "moved_body s f =
     (fst (hd (body s)) + fst (delta (direction s)), snd (hd (body s)) + snd (delta (direction s))) #
     (if f then body s else butlast (body s))"

text \<open>The cells of the AI snake, none when there is no AI snake.\<close>

definition ai_cells :: "Game \<Rightarrow> cell set" where
  "ai_cells g = (case ai_snake g of None \<Rightarrow> {} | Some a \<Rightarrow> set (body a))"

text \<open>The two flags that \<open>update\<close> computes before anything moves, and the player's reward.\<close>

definition player_will_eat_of :: "Game \<Rightarrow> bool" where
  "player_will_eat_of g = (hd (body (player g)) = food g)"

definition ai_eats :: "Game \<Rightarrow> bool" where
  "ai_eats g = (case ai_snake g of None \<Rightarrow> False | Some a \<Rightarrow> alive a \<and> hd (body a) = food g)"

definition player_points :: "Game \<Rightarrow> int" where
  "player_points g = (if DOUBLE_POINTS \<in> dom (power_ups (player g)) then 20 else 10)"

text \<open>
  The food is on no obstacle and on no cell of a snake behind its head.
\<close>

definition food_clear :: "Game \<Rightarrow> bool" where
  "food_clear g \<longleftrightarrow>
     food g \<notin> obstacles g \<and>
     food g \<notin> set (tl (body (player g))) \<and>
     (\<forall>a. ai_snake g = Some a \<longrightarrow> food g \<notin> set (tl (body a)))"

text \<open>
  The states of a round in play. \<^verbatim>\<open>init_game\<close> ends with \<^verbatim>\<open>self.spawn_food()\<close> and
  \<^verbatim>\<open>self.power_up = None\<close>, whatever it has set up before; the loop of \<^verbatim>\<open>run\<close> then calls
  \<^verbatim>\<open>handle_input\<close> and, when that returns true, \<^verbatim>\<open>update\<close>, and goes on while \<^verbatim>\<open>update\<close> returns
  true.
\<close>

inductive active_round :: "Game \<Rightarrow> bool" where
  start: "spawn_food g0 r0 = Inr (g, r) \<Longrightarrow> active_round (g\<lparr>power_up := None\<rparr>)"
| tick: "active_round g \<Longrightarrow> handle_input g evs = (g1, True) \<Longrightarrow>
         update g1 now r = Inr (g2, True, r') \<Longrightarrow> active_round g2"

text \<open>The direction that a request must not switch to.\<close>

definition opposite :: "Direction \<Rightarrow> Direction" where
  "opposite d = (case d of UP \<Rightarrow> DOWN | DOWN \<Rightarrow> UP | LEFT \<Rightarrow> RIGHT | RIGHT \<Rightarrow> LEFT)"

text \<open>
  Random tapes on which the rejection loops end. \<open>drawn_cell\<close> is the cell that two
  consecutive draws designate, \<open>draws\<close> lays pairs of draws out on the tape, \<open>food_ok\<close> and
  \<open>power_up_ok\<close> are the acceptance tests of \<open>spawn_food\<close> and of \<open>spawn_power_up\<close>, and
  \<open>draw_below p n\<close> says that the draw \<open>n\<close> passes the test \<^verbatim>\<open>random.random() < p / 10\<close>.
\<close>

definition drawn_cell :: "nat \<times> nat \<Rightarrow> cell" where
  "drawn_cell p = (int (fst p) mod GRID_WIDTH, int (snd p) mod GRID_HEIGHT)"

fun draws :: "(nat \<times> nat) list \<Rightarrow> rng" where
  "draws [] = []"
| "draws (p # ps) = fst p # snd p # draws ps"

definition food_ok :: "Game \<Rightarrow> cell \<Rightarrow> bool" where
  "food_ok g c \<longleftrightarrow> c \<notin> set (body (player g)) \<and> c \<notin> ai_cells g \<and> c \<notin> obstacles g"

definition power_up_ok :: "Game \<Rightarrow> cell \<Rightarrow> bool" where
  "power_up_ok g c \<longleftrightarrow> c \<notin> set (body (player g)) \<and> c \<noteq> food g \<and> c \<notin> obstacles g"

definition draw_below :: "nat \<Rightarrow> nat \<Rightarrow> bool" where
  "draw_below p n \<longleftrightarrow> 10 * (n mod 2 ^ 53) < p * 2 ^ 53"

text \<open>
  The draws that the power-up attempt after a meal consumes when it ends: one draw that
  misses the first test; or a hit and a miss of the second test; or two hits, any number of
  rejected cells, an accepted cell and the draw that chooses the kind.
\<close>

definition attempt_draws :: "Game \<Rightarrow> rng \<Rightarrow> bool" where
  "attempt_draws g t \<longleftrightarrow>
     (\<exists>n. t = [n] \<and> \<not> draw_below 2 n) \<or>
     (\<exists>n m. t = [n, m] \<and> draw_below 2 n \<and> \<not> draw_below 3 m) \<or>
     (\<exists>n m rejected p k. t = n # m # draws rejected @ [fst p, snd p, k] \<and> draw_below 2 n \<and> draw_below 3 m \<and>
        (\<forall>q \<in> set rejected. \<not> power_up_ok g (drawn_cell q)) \<and> power_up_ok g (drawn_cell p))"

text \<open>
  The state in which the food is respawned at \<open>c\<close> when the player and the AI snake \<open>a\<close>
  have both eaten: both have grown by moving, and the player has its points.
\<close>

definition after_meal :: "Game \<Rightarrow> Snake \<Rightarrow> cell \<Rightarrow> Game" where
  "after_meal g a c =
     g\<lparr>player := (player g)\<lparr>body := moved_body (player g) True,
                              score := score (player g) + player_points g\<rparr>,
       ai_snake := Some (a\<lparr>body := moved_body a True\<rparr>),
       food := c\<rparr>"

text \<open>The same game with another power-up dictionary for the player.\<close>

definition with_power_ups :: "Game \<Rightarrow> (PowerUpType \<rightharpoonup> int) \<Rightarrow> Game" where
  "with_power_ups g m = g\<lparr>player := (player g)\<lparr>power_ups := m\<rparr>\<rparr>"

text \<open>
  The search space of \<open>bfs_path\<close>. A cell is free when the test inside the loop lets the
  search step onto it: inside the grid, no obstacle, not in the snake's body.
\<close>

definition free_cell :: "cell list \<Rightarrow> cell set \<Rightarrow> cell \<Rightarrow> bool" where
  "free_cell sbody obs c \<longleftrightarrow>
     0 \<le> fst c \<and> fst c < GRID_WIDTH \<and> 0 \<le> snd c \<and> snd c < GRID_HEIGHT \<and>
     c \<notin> obs \<and> c \<notin> set sbody"

definition obstacle_set :: "cell set option \<Rightarrow> cell set" where
  "obstacle_set obstacles_arg = (case obstacles_arg of None \<Rightarrow> {} | Some os \<Rightarrow> os)"

text \<open>
  A walk is a list of directions taken from the start cell; \<open>trace\<close> lists the cells it
  visits, \<open>end_of\<close> is the last of them. A walk is admissible (\<open>walk\<close>) when every cell
  after the start cell is free: the start cell itself is never tested by the search.
\<close>

definition step_cell :: "cell \<Rightarrow> Direction \<Rightarrow> cell" where
  "step_cell c d = (fst c + fst (delta d), snd c + snd (delta d))"

fun trace :: "cell \<Rightarrow> Direction list \<Rightarrow> cell list" where
  "trace c [] = [c]"
| "trace c (d # ds) = c # trace (step_cell c d) ds"

definition end_of :: "cell \<Rightarrow> Direction list \<Rightarrow> cell" where
  "end_of c ds = foldl step_cell c ds"

definition walk :: "cell list \<Rightarrow> cell set \<Rightarrow> cell \<Rightarrow> Direction list \<Rightarrow> bool" where
  "walk sbody obs start ds \<longleftrightarrow> (\<forall>c \<in> set (tl (trace start ds)). free_cell sbody obs c)"

text \<open>
  The position of a direction in the enumeration, and the order on walks that the search
  realises: shorter walks first, walks of equal length lexicographically by position.
\<close>

fun rank :: "Direction \<Rightarrow> nat" where
  "rank UP = 0"
| "rank DOWN = 1"
| "rank LEFT = 2"
| "rank RIGHT = 3"

definition before :: "(Direction list \<times> Direction list) set" where
  "before = lenlex (measure rank)"

definition best_walk :: "cell list \<Rightarrow> cell set \<Rightarrow> cell \<Rightarrow> cell \<Rightarrow> Direction list \<Rightarrow> bool" where
  "best_walk sbody obs start goal ds \<longleftrightarrow>
     walk sbody obs start ds \<and> end_of start ds = goal \<and>
     (\<forall>w. walk sbody obs start w \<and> end_of start w = goal \<longrightarrow> w = ds \<or> (ds, w) \<in> before)"

text \<open>
  The same notions on cell sequences: \<open>route\<close> is a non-empty sequence of cells from start
  to goal in which each cell is 4-adjacent to its predecessor and every cell after the first
  is free; \<open>moves\<close> reads the directions off a sequence; \<open>earlier\<close> compares two direction
  lists at the first place where they differ.
\<close>

definition adjacent :: "cell \<Rightarrow> cell \<Rightarrow> bool" where
  "adjacent a b \<longleftrightarrow> \<bar>fst a - fst b\<bar> + \<bar>snd a - snd b\<bar> = 1"

definition route :: "cell list \<Rightarrow> cell set \<Rightarrow> cell \<Rightarrow> cell \<Rightarrow> cell list \<Rightarrow> bool" where
  "route sbody obs start goal p \<longleftrightarrow>
     p \<noteq> [] \<and> hd p = start \<and> last p = goal \<and>
     (\<forall>i. Suc i < length p \<longrightarrow>
        adjacent (p ! i) (p ! Suc i) \<and> free_cell sbody obs (p ! Suc i))"

definition direction_between :: "cell \<Rightarrow> cell \<Rightarrow> Direction" where
  "direction_between a b =
     (if b = step_cell a UP then UP
      else if b = step_cell a DOWN then DOWN
      else if b = step_cell a LEFT then LEFT
      else RIGHT)"

fun moves :: "cell list \<Rightarrow> Direction list" where
  "moves (a # b # cs) = direction_between a b # moves (b # cs)"
| "moves cs = []"

definition earlier :: "Direction list \<Rightarrow> Direction list \<Rightarrow> bool" where
  "earlier ds es \<longleftrightarrow>
     (\<exists>common d e ds' es'. ds = common @ d # ds' \<and> es = common @ e # es' \<and> rank d < rank e)"

text \<open>
  The queue entry of a walk, the test of the inner loop, and the invariant of the outer
  loop, stated on the walks whose entries are in the queue: they are admissible, sorted,
  each the least walk to its end cell, all before every extension of the first; the cells
  that have left the queue have all their free neighbours visited and are not the goal.
\<close>

definition entry :: "cell \<Rightarrow> Direction list \<Rightarrow> cell \<times> cell list" where
  "entry start ds = (end_of start ds, trace start ds)"

definition accepted :: "cell list \<Rightarrow> cell set \<Rightarrow> cell set \<Rightarrow> cell \<Rightarrow> Direction \<Rightarrow> bool" where
  "accepted sbody obs visited pos d \<longleftrightarrow>
     step_cell pos d \<notin> visited \<and> free_cell sbody obs (step_cell pos d)"

definition bfs_inv ::
  "cell list \<Rightarrow> cell set \<Rightarrow> cell \<Rightarrow> cell \<Rightarrow> Direction list list \<Rightarrow> cell set \<Rightarrow> bool" where
  "bfs_inv sbody obs start goal dss V \<longleftrightarrow>
     (\<forall>ds \<in> set dss. walk sbody obs start ds \<and> end_of start ds \<in> V) \<and>
     sorted_wrt (\<lambda>a b. (a, b) \<in> before) dss \<and>
     (\<forall>ds \<in> set dss. \<forall>w. walk sbody obs start w \<and> end_of start w = end_of start ds \<longrightarrow>
        w = ds \<or> (ds, w) \<in> before) \<and>
     (\<forall>q \<in> set dss. \<forall>d. (q, hd dss @ [d]) \<in> before) \<and>
     (\<forall>u \<in> V - end_of start ` set dss. \<forall>d.
        free_cell sbody obs (step_cell u d) \<longrightarrow> step_cell u d \<in> V) \<and>
     goal \<notin> V - end_of start ` set dss \<and>
     start \<in> V"

subsection \<open>Concrete states\<close>

text \<open>
  \<open>classic_start\<close> is a classic round right after \<^verbatim>\<open>init_game\<close>, with the food spawned on the
  cell in front of the player; \<open>classic_next\<close> is the state one tick later.
\<close>

definition classic_start :: Game where
  "classic_start =
     \<lparr>player = new_Snake 20 15 False, ai_snake = None, food = (21, 15), power_up = None,
      obstacles = {}, running = True\<rparr>"

definition classic_next :: Game where
  "classic_next =
     \<lparr>player = (new_Snake 20 15 False)\<lparr>body := [(21, 15)]\<rparr>, ai_snake = None, food = (21, 15),
      power_up = None, obstacles = {}, running = True\<rparr>"

text \<open>
  \<open>battle_meet\<close> is an AI battle in which both heads are on the food cell;
  \<open>battle_meet_next\<close> is the state one tick later when the random source yields the cell
  \<open>(5, 7)\<close> and no power-up attempt.
\<close>

definition battle_meet :: Game where
  "battle_meet =
     \<lparr>player = (new_Snake 7 7 False)\<lparr>power_ups := [DOUBLE_POINTS \<mapsto> 0]\<rparr>,
      ai_snake = Some ((new_Snake 7 7 True)\<lparr>direction := DOWN\<rparr>),
      food = (7, 7), power_up = None, obstacles = {}, running = True\<rparr>"

definition battle_meet_next :: Game where
  "battle_meet_next =
     \<lparr>player = (new_Snake 7 7 False)\<lparr>body := [(8, 7), (7, 7)], score := 20,
         power_ups := [DOUBLE_POINTS \<mapsto> 0]\<rparr>,
      ai_snake = Some ((new_Snake 7 7 True)\<lparr>body := [(7, 8), (7, 7)], direction := DOWN, score := 10\<rparr>),
      food = (5, 7), power_up = None, obstacles = {}, running = True\<rparr>"

text \<open>A player about to step onto a power-up, and the state after that tick at time 42.\<close>

definition pickup_state :: Game where
  "pickup_state =
     \<lparr>player = (new_Snake 5 5 False)\<lparr>power_ups := [DOUBLE_POINTS \<mapsto> 0]\<rparr>, ai_snake = None,
      food = (9, 9), power_up = Some (new_PowerUp 6 5 INVINCIBILITY), obstacles = {},
      running = True\<rparr>"

definition pickup_next :: Game where
  "pickup_next =
     \<lparr>player = (new_Snake 5 5 False)\<lparr>body := [(6, 5)],
         power_ups := [DOUBLE_POINTS \<mapsto> 0, INVINCIBILITY \<mapsto> 42]\<rparr>, ai_snake = None,
      food = (9, 9), power_up = None, obstacles = {}, running = True\<rparr>"

text \<open>A player at the left wall heading left, and the state after that tick.\<close>

definition wall_state :: Game where
  "wall_state =
     \<lparr>player = (new_Snake 0 5 False)\<lparr>direction := LEFT\<rparr>, ai_snake = None,
      food = (9, 9), power_up = None, obstacles = {}, running = True\<rparr>"

definition wall_next :: Game where
  "wall_next =
     \<lparr>player = (new_Snake 0 5 False)\<lparr>body := [(-1, 5)], direction := LEFT, alive := False\<rparr>,
      ai_snake = None, food = (9, 9), power_up = None, obstacles = {}, running = True\<rparr>"

text \<open>
  A round with obstacles: right after \<^verbatim>\<open>init_game\<close>, after a tick that brings the head onto
  the food, after the tick of the meal (three rejected cells, then \<open>(23, 15)\<close>), and one tick
  later with the head on the new food.
\<close>

definition obstacle_start :: Game where
  "obstacle_start =
     \<lparr>player = new_Snake 20 15 False, ai_snake = None, food = (21, 15), power_up = None,
      obstacles = {(21, 16), (5, 5)}, running = True\<rparr>"

definition obstacle_1 :: Game where
  "obstacle_1 = obstacle_start\<lparr>player := (new_Snake 20 15 False)\<lparr>body := [(21, 15)]\<rparr>\<rparr>"

definition obstacle_2 :: Game where
  "obstacle_2 =
     obstacle_start\<lparr>player := (new_Snake 20 15 False)\<lparr>body := [(22, 15), (21, 15)], score := 10\<rparr>,
                    food := (23, 15)\<rparr>"

definition obstacle_3 :: Game where
  "obstacle_3 =
     obstacle_start\<lparr>player := (new_Snake 20 15 False)\<lparr>body := [(23, 15), (22, 15)], score := 10\<rparr>,
                    food := (23, 15)\<rparr>"

text \<open>The AI battle one tick before \<open>battle_meet\<close>.\<close>

definition battle_before :: Game where
  "battle_before =
     \<lparr>player = (new_Snake 6 7 False)\<lparr>power_ups := [DOUBLE_POINTS \<mapsto> 0]\<rparr>,
      ai_snake = Some ((new_Snake 7 6 True)\<lparr>direction := DOWN\<rparr>),
      food = (7, 7), power_up = None, obstacles = {}, running = True\<rparr>"

text \<open>An AI snake of length one in the top left corner.\<close>

definition corner_ai :: Snake where
  "corner_ai = new_Snake 0 0 True"

section \<open>Properties of the building blocks\<close>

lemma move_result:
  assumes "move s f = Inr s'"
  shows "body s \<noteq> [] \<and>
         s' = s\<lparr>body := (fst (hd (body s)) + fst (delta (direction s)),
                          snd (hd (body s)) + snd (delta (direction s))) #
                         (if f then body s else butlast (body s))\<rparr>"
proof -
  from assms obtain hx hy rest where b: "body s = (hx, hy) # rest"
    by (cases "body s") (auto simp: move_def)
  obtain dx dy where d: "delta (direction s) = (dx, dy)"
    by (cases "delta (direction s)")
  from assms show ?thesis
    by (auto simp: move_def b d Let_def)
qed

lemma move_moved_body:
  assumes "move s f = Inr s'"
  shows "body s \<noteq> [] \<and> s' = s\<lparr>body := moved_body s f\<rparr>"
  using move_result [OF assms] by (simp add: moved_body_def)

lemma ai_move_result:
  assumes "ai_move a f obs = Inr a'"
  shows "a' = a\<lparr>direction := direction a'\<rparr>"
  using assms
  by (auto simp: ai_move_def Let_def split: if_splits list.splits option.splits)

lemma first_cell_Inr: "first_cell cs = Inr c \<Longrightarrow> cs \<noteq> [] \<and> c = hd cs"
  by (auto simp: first_cell_def split: list.splits)

lemma update_move_result:
  assumes "update_move g pe ae = Inr g1"
  shows "\<exists>p. move (player g) pe = Inr p \<and> player g1 = p \<and>
           food g1 = food g \<and> obstacles g1 = obstacles g \<and> power_up g1 = power_up g \<and>
           running g1 = running g \<and>
           (case ai_snake g of
              None \<Rightarrow> ai_snake g1 = None
            | Some a \<Rightarrow>
                if alive a then
                  (\<exists>a1 a2. ai_move a (food g) (Some (obstacles g)) = Inr a1 \<and>
                     move a1 ae = Inr a2 \<and> ai_snake g1 = Some a2)
                else ai_snake g1 = Some a)"
  using assms
  by (auto simp: update_move_def split: sum.splits option.splits if_splits)

lemma spawn_food_result:
  "spawn_food g r = Inr (g', r') \<Longrightarrow>
     \<exists>c. g' = g\<lparr>food := c\<rparr> \<and>
       c \<notin> set (body (player g)) \<and>
       (\<forall>a. ai_snake g = Some a \<longrightarrow> c \<notin> set (body a)) \<and>
       c \<notin> obstacles g"
proof (induction g r rule: spawn_food.induct)
  case (1 g r)
  note unf = spawn_food.simps [of g r]
  show ?case
  proof (cases "randint 0 (GRID_WIDTH - 1) r")
    case (Inl e)
    with "1.prems" show ?thesis by (simp add: unf)
  next
    case (Inr xr)
    obtain cx r1 where xr: "xr = (cx, r1)" by (cases xr)
    show ?thesis
    proof (cases "randint 0 (GRID_HEIGHT - 1) r1")
      case (Inl e)
      with "1.prems" Inr xr show ?thesis by (simp add: unf)
    next
      case yI: (Inr yr)
      obtain cy r2 where yr: "yr = (cy, r2)" by (cases yr)
      let ?ok = "(cx, cy) \<notin> set (body (player g)) \<and>
                 (case ai_snake g of None \<Rightarrow> True | Some a \<Rightarrow> (cx, cy) \<notin> set (body a)) \<and>
                 (cx, cy) \<notin> obstacles g"
      show ?thesis
      proof (cases ?ok)
        case True
        with "1.prems" Inr xr yI yr have "g' = g\<lparr>food := (cx, cy)\<rparr>"
          by (simp add: unf)
        with True show ?thesis by (auto split: option.splits)
      next
        case False
        with "1.prems" Inr xr yI yr have "spawn_food g r2 = Inr (g', r')"
          by (simp add: unf)
        moreover note "1.IH" [OF Inr xr [symmetric] yI yr [symmetric] False]
        ultimately show ?thesis by blast
      qed
    qed
  qed
qed

lemma spawn_power_up_loop_result:
  "spawn_power_up_loop g r = Inr (g', r') \<Longrightarrow>
     \<exists>pu. g' = g\<lparr>power_up := Some pu\<rparr> \<and>
       (pu_x pu, pu_y pu) \<notin> set (body (player g)) \<and>
       (pu_x pu, pu_y pu) \<noteq> food g \<and>
       (pu_x pu, pu_y pu) \<notin> obstacles g"
proof (induction g r rule: spawn_power_up_loop.induct)
  case (1 g r)
  note unf = spawn_power_up_loop.simps [of g r]
  show ?case
  proof (cases "randint 0 (GRID_WIDTH - 1) r")
    case (Inl e)
    with "1.prems" show ?thesis by (simp add: unf)
  next
    case (Inr xr)
    obtain cx r1 where xr: "xr = (cx, r1)" by (cases xr)
    show ?thesis
    proof (cases "randint 0 (GRID_HEIGHT - 1) r1")
      case (Inl e)
      with "1.prems" Inr xr show ?thesis by (simp add: unf)
    next
      case yI: (Inr yr)
      obtain cy r2 where yr: "yr = (cy, r2)" by (cases yr)
      let ?ok = "(cx, cy) \<notin> set (body (player g)) \<and> (cx, cy) \<noteq> food g \<and>
                 (cx, cy) \<notin> obstacles g"
      show ?thesis
      proof (cases ?ok)
        case True
        with "1.prems" Inr xr yI yr obtain t r3 where
          "choice_PowerUpType r2 = Inr (t, r3)"
          "g' = g\<lparr>power_up := Some (new_PowerUp cx cy t)\<rparr>"
          by (auto simp: unf split: sum.splits)
        with True show ?thesis by (auto simp: new_PowerUp_def)
      next
        case False
        with "1.prems" Inr xr yI yr have "spawn_power_up_loop g r2 = Inr (g', r')"
          by (auto simp: unf)
        moreover note "1.IH" [OF Inr xr [symmetric] yI yr [symmetric] False]
        ultimately show ?thesis by blast
      qed
    qed
  qed
qed

lemma spawn_power_up_result:
  assumes "spawn_power_up g r = Inr (g', r')"
  shows "\<exists>p. g' = g\<lparr>power_up := p\<rparr>"
proof (cases "random_below 3 r")
  case (Inl e)
  with assms show ?thesis by (simp add: spawn_power_up_def)
next
  case (Inr hr)
  obtain hit r1 where hr: "hr = (hit, r1)" by (cases hr)
  show ?thesis
  proof (cases hit)
    case True
    with assms Inr hr have "spawn_power_up_loop g r1 = Inr (g', r')"
      by (simp add: spawn_power_up_def)
    from spawn_power_up_loop_result [OF this] show ?thesis by auto
  next
    case False
    with assms Inr hr have "g' = g" by (simp add: spawn_power_up_def)
    then show ?thesis by (intro exI [of _ "power_up g"]) simp
  qed
qed

lemma update_player_food_False: "update_player_food g False r = Inr (g, r)"
  by (simp add: update_player_food_def)

lemma update_player_food_True:
  assumes "update_player_food g True r = Inr (g2, r2)"
    and g1: "g1 = g\<lparr>player := (player g)\<lparr>score := score (player g) +
              (if DOUBLE_POINTS \<in> dom (power_ups (player g)) then 20 else 10)\<rparr>\<rparr>"
  shows "\<exists>c p rs. spawn_food g1 r = Inr (g1\<lparr>food := c\<rparr>, rs) \<and>
           g2 = g1\<lparr>food := c, power_up := p\<rparr> \<and>
           c \<notin> set (body (player g)) \<and>
           (\<forall>a. ai_snake g = Some a \<longrightarrow> c \<notin> set (body a)) \<and>
           c \<notin> obstacles g"
proof -
  from assms have a: "(case spawn_food g1 r of
              Inl e \<Rightarrow> Inl e
            | Inr (gs, r1) \<Rightarrow>
                (case random_below 2 r1 of
                   Inl e \<Rightarrow> Inl e
                 | Inr (hit, r2) \<Rightarrow> if hit then spawn_power_up gs r2 else Inr (gs, r2))) = Inr (g2, r2)"
    by (cases "DOUBLE_POINTS \<in> dom (power_ups (player g))")
       (simp_all add: update_player_food_def Let_def)
  then obtain gs rs where sf: "spawn_food g1 r = Inr (gs, rs)"
    by (cases "spawn_food g1 r") auto
  from spawn_food_result [OF sf] obtain c where c: "gs = g1\<lparr>food := c\<rparr>"
    and c1: "c \<notin> set (body (player g1))"
    and c2: "\<forall>a. ai_snake g1 = Some a \<longrightarrow> c \<notin> set (body a)"
    and c3: "c \<notin> obstacles g1"
    by blast
  from a sf obtain hit r3 where rb: "random_below 2 rs = Inr (hit, r3)"
    by (cases "random_below 2 rs") auto
  have "\<exists>p. g2 = gs\<lparr>power_up := p\<rparr>"
  proof (cases hit)
    case True
    with a sf rb have "spawn_power_up gs r3 = Inr (g2, r2)" by simp
    from spawn_power_up_result [OF this] show ?thesis .
  next
    case False
    with a sf rb have "g2 = gs" by simp
    then show ?thesis by (intro exI [of _ "power_up gs"]) simp
  qed
  then obtain p where p: "g2 = gs\<lparr>power_up := p\<rparr>" ..
  have b: "body (player g1) = body (player g)" "ai_snake g1 = ai_snake g"
    "obstacles g1 = obstacles g"
    by (simp_all add: g1)
  show ?thesis
    using sf c c1 c2 c3 p unfolding b
    by (intro exI [of _ c] exI [of _ p] exI [of _ rs]) simp
qed

lemma update_ai_food_result:
  assumes "update_ai_food g pe ae r = Inr (g3, r3)"
  shows "if ae then
           (if pe then g3 = (case ai_snake g of None \<Rightarrow> g
                       | Some a \<Rightarrow> g\<lparr>ai_snake := Some (a\<lparr>score := score a + 10\<rparr>)\<rparr>) \<and> r3 = r
            else spawn_food (case ai_snake g of None \<Rightarrow> g
                       | Some a \<Rightarrow> g\<lparr>ai_snake := Some (a\<lparr>score := score a + 10\<rparr>)\<rparr>) r = Inr (g3, r3))
         else g3 = g \<and> r3 = r"
  using assms by (auto simp: update_ai_food_def Let_def split: if_splits)

lemma update_power_up_result:
  assumes "update_power_up g now = Inr g4"
  shows "\<exists>m p. g4 = g\<lparr>player := (player g)\<lparr>power_ups := m\<rparr>, power_up := p\<rparr> \<and>
           dom (power_ups (player g)) \<subseteq> dom m"
proof (cases "power_up g")
  case None
  with assms have "g4 = g" by (simp add: update_power_up_def)
  then show ?thesis
    by (intro exI [of _ "power_ups (player g)"] exI [of _ "power_up g"]) simp
next
  case (Some pu)
  with assms obtain h where h: "first_cell (body (player g)) = Inr h"
    by (cases "first_cell (body (player g))") (auto simp: update_power_up_def)
  show ?thesis
  proof (cases "h = (pu_x pu, pu_y pu)")
    case True
    with assms Some h have "g4 = g\<lparr>player := (player g)\<lparr>power_ups := (power_ups (player g))(pu_type pu \<mapsto> now)\<rparr>,
                        power_up := None\<rparr>"
      by (simp add: update_power_up_def)
    then show ?thesis
      by (intro exI [of _ "(power_ups (player g))(pu_type pu \<mapsto> now)"] exI [of _ None]) auto
  next
    case False
    with assms Some h have "g4 = g" by (simp add: update_power_up_def)
    then show ?thesis
      by (intro exI [of _ "power_ups (player g)"] exI [of _ "power_up g"]) simp
  qed
qed

lemma update_collisions_result:
  assumes "update_collisions g = Inr (g5, ok)"
  shows "\<exists>hit. check_collision (player g) (Some (obstacles g)) = Inr hit \<and> ok = (\<not> hit) \<and>
           food g5 = food g \<and> obstacles g5 = obstacles g \<and> power_up g5 = power_up g \<and>
           running g5 = running g \<and>
           (\<exists>b. player g5 = (player g)\<lparr>alive := b\<rparr>) \<and>
           (case ai_snake g of None \<Rightarrow> ai_snake g5 = None
            | Some a \<Rightarrow> \<exists>b. ai_snake g5 = Some (a\<lparr>alive := b\<rparr>))"
proof -
  from assms obtain hit where hit: "check_collision (player g) (Some (obstacles g)) = Inr hit"
    by (cases "check_collision (player g) (Some (obstacles g))") (auto simp: update_collisions_def)
  have same: "s = s\<lparr>alive := alive s\<rparr>" for s :: Snake by simp
  show ?thesis
  proof (cases hit)
    case True
    with assms hit have "g5 = g\<lparr>player := (player g)\<lparr>alive := False\<rparr>\<rparr>" "ok = False"
      by (auto simp: update_collisions_def)
    with hit True show ?thesis
      by (auto split: option.splits intro: exI [of _ "alive s" for s] same)
  next
    case False
    show ?thesis
    proof (cases "ai_snake g")
      case None
      with assms hit False have "g5 = g" "ok" by (auto simp: update_collisions_def)
      with hit False None show ?thesis by (auto intro: same)
    next
      case (Some a)
      show ?thesis
      proof (cases "alive a")
        case dead: False
        with assms hit False Some have "g5 = g" "ok" by (auto simp: update_collisions_def)
        with hit False Some show ?thesis by (auto intro: same)
      next
        case True
        with assms hit False Some obtain ah where
          ah: "check_collision a (Some (obstacles g)) = Inr ah"
          by (cases "check_collision a (Some (obstacles g))") (auto simp: update_collisions_def)
        show ?thesis
        proof (cases ah)
          case True
          with assms hit False Some \<open>alive a\<close> ah
          have "g5 = g\<lparr>ai_snake := Some (a\<lparr>alive := False\<rparr>)\<rparr>" "ok"
            by (auto simp: update_collisions_def)
          with hit False Some show ?thesis by (auto intro: same)
        next
          case noai: False
          with assms hit False Some \<open>alive a\<close> ah have "g5 = g" "ok"
            by (auto simp: update_collisions_def)
          with hit False Some show ?thesis by (auto intro: same)
        qed
      qed
    qed
  qed
qed

section \<open>The phases of one tick\<close>

lemma update_phases:
  assumes "update g now r = Inr (g5, ok, r')"
  shows "\<exists>h ae g1 g2 r1 g3 g4.
           first_cell (body (player g)) = Inr h \<and>
           ai_will_eat_of g = Inr ae \<and>
           update_move g (h = food g) ae = Inr g1 \<and>
           update_player_food g1 (h = food g) r = Inr (g2, r1) \<and>
           update_ai_food g2 (h = food g) ae r1 = Inr (g3, r') \<and>
           update_power_up g3 now = Inr g4 \<and>
           update_collisions g4 = Inr (g5, ok)"
proof -
  from assms obtain h where h: "first_cell (body (player g)) = Inr h"
    by (cases "first_cell (body (player g))") (auto simp: update_def)
  from assms h obtain ae where ae: "ai_will_eat_of g = Inr ae"
    by (cases "ai_will_eat_of g") (auto simp: update_def)
  from assms h ae obtain g1 where g1: "update_move g (h = food g) ae = Inr g1"
    by (cases "update_move g (h = food g) ae") (auto simp: update_def)
  from assms h ae g1 obtain g2 r1 where g2: "update_player_food g1 (h = food g) r = Inr (g2, r1)"
    by (cases "update_player_food g1 (h = food g) r") (auto simp: update_def)
  from assms h ae g1 g2 obtain g3 r2 where g3: "update_ai_food g2 (h = food g) ae r1 = Inr (g3, r2)"
    by (cases "update_ai_food g2 (h = food g) ae r1") (auto simp: update_def)
  from assms h ae g1 g2 g3 obtain g4 where g4: "update_power_up g3 now = Inr g4"
    by (cases "update_power_up g3 now") (auto simp: update_def)
  from assms h ae g1 g2 g3 g4 have "update_collisions g4 = Inr (g5, ok) \<and> r2 = r'"
    by (cases "update_collisions g4") (auto simp: update_def)
  with h ae g1 g2 g3 g4 show ?thesis by blast
qed

lemma ai_will_eat_of_Inr:
  assumes "ai_will_eat_of g = Inr ae"
  shows "ae = (case ai_snake g of None \<Rightarrow> False | Some a \<Rightarrow> alive a \<and> hd (body a) = food g)"
  using assms
  by (auto simp: ai_will_eat_of_def first_cell_def split: option.splits if_splits list.splits sum.splits)

lemma update_move_facts:
  assumes "update_move g pe ae = Inr g1"
  shows "body (player g) \<noteq> []"
    and "player g1 = (player g)\<lparr>body := moved_body (player g) pe\<rparr>"
    and "food g1 = food g" and "obstacles g1 = obstacles g" and "power_up g1 = power_up g"
    and "running g1 = running g"
    and "ai_snake g = None \<Longrightarrow> ai_snake g1 = None"
    and "\<And>a. ai_snake g = Some a \<Longrightarrow> \<not> alive a \<Longrightarrow> ai_snake g1 = Some a"
    and "\<And>a. ai_snake g = Some a \<Longrightarrow> alive a \<Longrightarrow>
           \<exists>d. ai_move a (food g) (Some (obstacles g)) = Inr (a\<lparr>direction := d\<rparr>) \<and> body a \<noteq> [] \<and>
             ai_snake g1 = Some (a\<lparr>direction := d, body := moved_body (a\<lparr>direction := d\<rparr>) ae\<rparr>)"
proof -
  from update_move_result [OF assms] obtain p where
    p: "move (player g) pe = Inr p" "player g1 = p"
    and fr: "food g1 = food g" "obstacles g1 = obstacles g" "power_up g1 = power_up g"
      "running g1 = running g"
    and ai: "(case ai_snake g of
              None \<Rightarrow> ai_snake g1 = None
            | Some a \<Rightarrow>
                if alive a then
                  (\<exists>a1 a2. ai_move a (food g) (Some (obstacles g)) = Inr a1 \<and>
                     move a1 ae = Inr a2 \<and> ai_snake g1 = Some a2)
                else ai_snake g1 = Some a)"
    by blast
  from move_moved_body [OF p(1)] p(2)
  show "body (player g) \<noteq> []" "player g1 = (player g)\<lparr>body := moved_body (player g) pe\<rparr>"
    by simp_all
  from fr show "food g1 = food g" "obstacles g1 = obstacles g" "power_up g1 = power_up g"
    "running g1 = running g" by simp_all
  from ai show "ai_snake g = None \<Longrightarrow> ai_snake g1 = None" by simp
  from ai show "\<And>a. ai_snake g = Some a \<Longrightarrow> \<not> alive a \<Longrightarrow> ai_snake g1 = Some a" by simp
  show "\<exists>d. ai_move a (food g) (Some (obstacles g)) = Inr (a\<lparr>direction := d\<rparr>) \<and> body a \<noteq> [] \<and>
             ai_snake g1 = Some (a\<lparr>direction := d, body := moved_body (a\<lparr>direction := d\<rparr>) ae\<rparr>)"
    if a: "ai_snake g = Some a" "alive a" for a
  proof -
    from ai a obtain a1 a2 where am: "ai_move a (food g) (Some (obstacles g)) = Inr a1"
      and mv: "move a1 ae = Inr a2" and g1: "ai_snake g1 = Some a2"
      by auto
    from ai_move_result [OF am] have a1: "a1 = a\<lparr>direction := direction a1\<rparr>" .
    from move_moved_body [OF mv] have a2: "body a1 \<noteq> []" "a2 = a1\<lparr>body := moved_body a1 ae\<rparr>"
      by simp_all
    from a1 have "body a1 = body a" by (metis Snake.select_convs(1) Snake.surjective Snake.update_convs(2))
    with a2 have ne: "body a \<noteq> []" by simp
    have "a2 = a\<lparr>direction := direction a1, body := moved_body (a\<lparr>direction := direction a1\<rparr>) ae\<rparr>"
      using a1 a2(2) by metis
    with am a1 ne g1 show ?thesis
      by (intro exI [of _ "direction a1"]) simp
  qed
qed

lemma update_player_food_facts:
  assumes "update_player_food g1 pe r = Inr (g2, r1)"
  shows "player g2 = (player g1)\<lparr>score := score (player g1) + (if pe then player_points g1 else 0)\<rparr>"
    and "ai_snake g2 = ai_snake g1" and "obstacles g2 = obstacles g1" and "running g2 = running g1"
    and "\<not> pe \<Longrightarrow> g2 = g1 \<and> r1 = r"
    and "pe \<Longrightarrow> food g2 \<notin> set (body (player g1)) \<union> ai_cells g1 \<union> obstacles g1"
    and "pe \<Longrightarrow> \<exists>gs rs. spawn_food gs r = Inr (gs\<lparr>food := food g2\<rparr>, rs) \<and>
            body (player gs) = body (player g1) \<and> ai_snake gs = ai_snake g1 \<and>
            obstacles gs = obstacles g1"
proof -
  have eq: "s = s\<lparr>score := score s + 0\<rparr>" for s :: Snake by simp
  show np: "\<not> pe \<Longrightarrow> g2 = g1 \<and> r1 = r"
    using assms by (simp add: update_player_food_False)
  define ga where "ga = g1\<lparr>player := (player g1)\<lparr>score := score (player g1) +
              (if DOUBLE_POINTS \<in> dom (power_ups (player g1)) then 20 else 10)\<rparr>\<rparr>"
  have ex: "\<exists>c p rs. spawn_food ga r = Inr (ga\<lparr>food := c\<rparr>, rs) \<and>
           g2 = ga\<lparr>food := c, power_up := p\<rparr> \<and>
           c \<notin> set (body (player g1)) \<and>
           (\<forall>a. ai_snake g1 = Some a \<longrightarrow> c \<notin> set (body a)) \<and>
           c \<notin> obstacles g1" if pe
    using update_player_food_True [of g1 r g2 r1 ga] assms that ga_def by simp
  show "player g2 = (player g1)\<lparr>score := score (player g1) + (if pe then player_points g1 else 0)\<rparr>"
  proof (cases pe)
    case True
    from ex [OF True] obtain c p where "g2 = ga\<lparr>food := c, power_up := p\<rparr>" by blast
    then show ?thesis using True by (simp add: ga_def player_points_def)
  next
    case False
    with np show ?thesis by simp
  qed
  show "ai_snake g2 = ai_snake g1"
  proof (cases pe)
    case True
    from ex [OF True] obtain c p where "g2 = ga\<lparr>food := c, power_up := p\<rparr>" by blast
    then show ?thesis by (simp add: ga_def)
  next
    case False
    with np show ?thesis by simp
  qed
  show "obstacles g2 = obstacles g1"
  proof (cases pe)
    case True
    from ex [OF True] obtain c p where "g2 = ga\<lparr>food := c, power_up := p\<rparr>" by blast
    then show ?thesis by (simp add: ga_def)
  next
    case False
    with np show ?thesis by simp
  qed
  show "running g2 = running g1"
  proof (cases pe)
    case True
    from ex [OF True] obtain c p where "g2 = ga\<lparr>food := c, power_up := p\<rparr>" by blast
    then show ?thesis by (simp add: ga_def)
  next
    case False
    with np show ?thesis by simp
  qed
  show "food g2 \<notin> set (body (player g1)) \<union> ai_cells g1 \<union> obstacles g1" if pe
  proof -
    from ex [OF that] obtain c p where "g2 = ga\<lparr>food := c, power_up := p\<rparr>"
      "c \<notin> set (body (player g1))" "\<forall>a. ai_snake g1 = Some a \<longrightarrow> c \<notin> set (body a)"
      "c \<notin> obstacles g1" by blast
    then show ?thesis by (auto simp: ai_cells_def split: option.splits)
  qed
  show "\<exists>gs rs. spawn_food gs r = Inr (gs\<lparr>food := food g2\<rparr>, rs) \<and>
            body (player gs) = body (player g1) \<and> ai_snake gs = ai_snake g1 \<and>
            obstacles gs = obstacles g1" if pe
  proof -
    from ex [OF that] obtain c p rs where "g2 = ga\<lparr>food := c, power_up := p\<rparr>"
      "spawn_food ga r = Inr (ga\<lparr>food := c\<rparr>, rs)" by blast
    then show ?thesis
      by (intro exI [of _ ga] exI [of _ rs]) (simp add: ga_def)
  qed
qed

lemma update_ai_food_facts:
  assumes "update_ai_food g2 pe ae r1 = Inr (g3, r')"
  shows "player g3 = player g2" and "obstacles g3 = obstacles g2"
    and "ai_snake g2 = None \<Longrightarrow> ai_snake g3 = None"
    and "\<And>a. ai_snake g2 = Some a \<Longrightarrow>
            ai_snake g3 = Some (a\<lparr>score := score a + (if ae then 10 else 0)\<rparr>)"
    and "\<not> (ae \<and> \<not> pe) \<Longrightarrow> food g3 = food g2 \<and> power_up g3 = power_up g2 \<and> r' = r1"
    and "ae \<and> \<not> pe \<Longrightarrow> food g3 \<notin> set (body (player g2)) \<union> ai_cells g2 \<union> obstacles g2"
    and "ae \<and> \<not> pe \<Longrightarrow> \<exists>gs rs. spawn_food gs r1 = Inr (gs\<lparr>food := food g3\<rparr>, rs) \<and>
            body (player gs) = body (player g2) \<and> ai_cells gs = ai_cells g2 \<and>
            obstacles gs = obstacles g2"
proof -
  define gb where "gb = (case ai_snake g2 of None \<Rightarrow> g2
                       | Some a \<Rightarrow> g2\<lparr>ai_snake := Some (a\<lparr>score := score a + 10\<rparr>)\<rparr>)"
  note res = update_ai_food_result [OF assms, folded gb_def]
  have gbf: "player gb = player g2" "obstacles gb = obstacles g2" "food gb = food g2"
    "power_up gb = power_up g2" "ai_cells gb = ai_cells g2"
    "ai_snake g2 = None \<Longrightarrow> ai_snake gb = None"
    "\<And>a. ai_snake g2 = Some a \<Longrightarrow> ai_snake gb = Some (a\<lparr>score := score a + 10\<rparr>)"
    by (auto simp: gb_def ai_cells_def split: option.splits)
  have sp: "\<exists>c. g3 = gb\<lparr>food := c\<rparr> \<and> spawn_food gb r1 = Inr (gb\<lparr>food := c\<rparr>, r') \<and>
       c \<notin> set (body (player gb)) \<and> (\<forall>a. ai_snake gb = Some a \<longrightarrow> c \<notin> set (body a)) \<and>
       c \<notin> obstacles gb" if "ae \<and> \<not> pe"
  proof -
    from res that have sf: "spawn_food gb r1 = Inr (g3, r')" by simp
    from spawn_food_result [OF sf] sf show ?thesis by auto
  qed
  have cases3: "(ae \<and> \<not> pe) \<or> (ae \<and> pe) \<or> \<not> ae" by blast
  have g3: "\<exists>c. g3 = (if ae then gb else g2)\<lparr>food := c\<rparr>"
  proof -
    consider "ae \<and> \<not> pe" | "ae \<and> pe" | "\<not> ae" by blast
    then show ?thesis
    proof cases
      case 1
      from sp [OF 1] 1 show ?thesis by auto
    next
      case 2
      with res have "g3 = gb" by simp
      with 2 show ?thesis by (intro exI [of _ "food gb"]) simp
    next
      case 3
      with res have "g3 = g2" by simp
      with 3 show ?thesis by (intro exI [of _ "food g2"]) simp
    qed
  qed
  then obtain c where c: "g3 = (if ae then gb else g2)\<lparr>food := c\<rparr>" ..
  from c gbf show "player g3 = player g2" "obstacles g3 = obstacles g2" by auto
  from c gbf show "ai_snake g2 = None \<Longrightarrow> ai_snake g3 = None" by auto
  from c gbf show "\<And>a. ai_snake g2 = Some a \<Longrightarrow>
            ai_snake g3 = Some (a\<lparr>score := score a + (if ae then 10 else 0)\<rparr>)" by auto
  from res gbf show "\<not> (ae \<and> \<not> pe) \<Longrightarrow> food g3 = food g2 \<and> power_up g3 = power_up g2 \<and> r' = r1"
    by (auto split: if_splits)
  show "food g3 \<notin> set (body (player g2)) \<union> ai_cells g2 \<union> obstacles g2" if "ae \<and> \<not> pe"
  proof -
    from sp [OF that] obtain c where "g3 = gb\<lparr>food := c\<rparr>" "c \<notin> set (body (player gb))"
      "\<forall>a. ai_snake gb = Some a \<longrightarrow> c \<notin> set (body a)" "c \<notin> obstacles gb" by blast
    then have "food g3 \<notin> set (body (player gb)) \<union> ai_cells gb \<union> obstacles gb"
      by (auto simp: ai_cells_def split: option.splits)
    with gbf show ?thesis by simp
  qed
  show "\<exists>gs rs. spawn_food gs r1 = Inr (gs\<lparr>food := food g3\<rparr>, rs) \<and>
            body (player gs) = body (player g2) \<and> ai_cells gs = ai_cells g2 \<and>
            obstacles gs = obstacles g2" if "ae \<and> \<not> pe"
  proof -
    from sp [OF that] obtain c where "g3 = gb\<lparr>food := c\<rparr>"
      "spawn_food gb r1 = Inr (gb\<lparr>food := c\<rparr>, r')" by blast
    with gbf show ?thesis
      by (intro exI [of _ gb] exI [of _ r']) simp
  qed
qed

lemma update_move_ex:
  assumes "update g now r = Inr (g', ok, r')"
  shows "\<exists>g1. update_move g (player_will_eat_of g) (ai_eats g) = Inr g1"
proof -
  from update_phases [OF assms] obtain h ae g1 where
    h: "first_cell (body (player g)) = Inr h"
    and ae: "ai_will_eat_of g = Inr ae"
    and g1: "update_move g (h = food g) ae = Inr g1"
    by blast
  from first_cell_Inr [OF h] have "(h = food g) = player_will_eat_of g"
    by (simp add: player_will_eat_of_def)
  moreover from ai_will_eat_of_Inr [OF ae] have "ae = ai_eats g"
    by (simp add: ai_eats_def)
  ultimately show ?thesis using g1 by auto
qed

lemma update_effect:
  assumes "update g now r = Inr (g', ok, r')"
    and mv: "update_move g (player_will_eat_of g) (ai_eats g) = Inr g1"
  shows "body (player g') = body (player g1)"
    and "score (player g') =
       score (player g) + (if player_will_eat_of g then player_points g else 0)"
    and "direction (player g') = direction (player g)"
    and "dom (power_ups (player g)) \<subseteq> dom (power_ups (player g'))"
    and "obstacles g' = obstacles g"
    and "ai_snake g1 = None \<Longrightarrow> ai_snake g' = None"
    and "\<And>a1. ai_snake g1 = Some a1 \<Longrightarrow>
        \<exists>b. ai_snake g' = Some (a1\<lparr>score := score a1 + (if ai_eats g then 10 else 0), alive := b\<rparr>)"
    and "\<not> player_will_eat_of g \<Longrightarrow> \<not> ai_eats g \<Longrightarrow> food g' = food g"
    and "player_will_eat_of g \<or> ai_eats g \<Longrightarrow>
        food g' \<notin> set (body (player g1)) \<union> ai_cells g1 \<union> obstacles g"
    and "player_will_eat_of g \<or> ai_eats g \<Longrightarrow>
        \<exists>gs rs. spawn_food gs r = Inr (gs\<lparr>food := food g'\<rparr>, rs) \<and>
           body (player gs) = body (player g1) \<and> ai_cells gs = ai_cells g1 \<and>
           obstacles gs = obstacles g"
proof -
  from update_phases [OF assms(1)] obtain h ae g1' g2 r1 g3 g4 where
    h: "first_cell (body (player g)) = Inr h"
    and ae: "ai_will_eat_of g = Inr ae"
    and g1': "update_move g (h = food g) ae = Inr g1'"
    and g2': "update_player_food g1' (h = food g) r = Inr (g2, r1)"
    and g3: "update_ai_food g2 (h = food g) ae r1 = Inr (g3, r')"
    and g4: "update_power_up g3 now = Inr g4"
    and g5: "update_collisions g4 = Inr (g', ok)"
    by blast
  define pe where "pe = player_will_eat_of g"
  from first_cell_Inr [OF h] have pe: "(h = food g) = pe"
    by (simp add: pe_def player_will_eat_of_def)
  from ai_will_eat_of_Inr [OF ae] have ae_eq: "ae = ai_eats g"
    by (simp add: ai_eats_def)
  from g1' mv pe ae_eq have same: "g1' = g1" by (simp add: pe_def)
  from g1' same have g1: "update_move g (h = food g) ae = Inr g1" by simp
  from g2' same have g2: "update_player_food g1 (h = food g) r = Inr (g2, r1)" by simp
  note m = update_move_facts [OF g1 [unfolded pe]]
  note pf = update_player_food_facts [OF g2 [unfolded pe]]
  note af = update_ai_food_facts [OF g3 [unfolded pe]]
  from update_power_up_result [OF g4] obtain mm pp where
    g4e: "g4 = g3\<lparr>player := (player g3)\<lparr>power_ups := mm\<rparr>, power_up := pp\<rparr>"
    and mm: "dom (power_ups (player g3)) \<subseteq> dom mm" by blast
  from update_collisions_result [OF g5] obtain b where
    c5: "food g' = food g4" "obstacles g' = obstacles g4" "player g' = (player g4)\<lparr>alive := b\<rparr>"
    and ai5: "(case ai_snake g4 of None \<Rightarrow> ai_snake g' = None
            | Some a \<Rightarrow> \<exists>b. ai_snake g' = Some (a\<lparr>alive := b\<rparr>))"
    by blast
  have pts: "player_points g1 = player_points g"
    by (simp add: player_points_def m(2))
  have p3: "player g3 = (player g)\<lparr>body := moved_body (player g) pe,
      score := score (player g) + (if pe then player_points g else 0)\<rparr>"
    by (simp add: af(1) pf(1) m(2) pts)
  have pl: "player g' = (player g)\<lparr>body := moved_body (player g) pe,
      score := score (player g) + (if pe then player_points g else 0),
      power_ups := mm, alive := b\<rparr>"
    by (simp add: c5(3) g4e p3)
  have mm': "dom (power_ups (player g)) \<subseteq> dom mm"
    using mm by (simp add: p3)
  have ob: "obstacles g' = obstacles g"
    by (simp add: c5(2) g4e af(2) pf(3) m(4))
  have ai4: "ai_snake g4 = ai_snake g3" by (simp add: g4e)
  have aiN: "ai_snake g' = None" if "ai_snake g1 = None"
  proof -
    from that pf(2) have "ai_snake g2 = None" by simp
    from af(3) [OF this] ai4 have "ai_snake g4 = None" by simp
    with ai5 show ?thesis by simp
  qed
  have aiS: "\<exists>b. ai_snake g' = Some (a1\<lparr>score := score a1 + (if ae then 10 else 0), alive := b\<rparr>)"
    if "ai_snake g1 = Some a1" for a1
  proof -
    from that pf(2) have "ai_snake g2 = Some a1" by simp
    from af(4) [OF this] ai4
    have "ai_snake g4 = Some (a1\<lparr>score := score a1 + (if ae then 10 else 0)\<rparr>)" by simp
    with ai5 show ?thesis by simp
  qed
  have f4: "food g' = food g3" by (simp add: c5(1) g4e)
  have cells2: "body (player g2) = body (player g1)" "ai_cells g2 = ai_cells g1"
    "obstacles g2 = obstacles g1"
    by (simp_all add: pf(1) pf(2) pf(3) ai_cells_def)
  have keep: "food g' = food g" if "\<not> pe" "\<not> ae"
  proof -
    from that af(5) have "food g3 = food g2" by simp
    moreover from that pf(5) have "g2 = g1" by simp
    ultimately show ?thesis using f4 m(3) by simp
  qed
  have fresh: "food g' \<notin> set (body (player g1)) \<union> ai_cells g1 \<union> obstacles g \<and>
        (\<exists>gs rs. spawn_food gs r = Inr (gs\<lparr>food := food g'\<rparr>, rs) \<and>
           body (player gs) = body (player g1) \<and> ai_cells gs = ai_cells g1 \<and>
           obstacles gs = obstacles g)" if "pe \<or> ae"
  proof (cases pe)
    case True
    then have "\<not> (ae \<and> \<not> pe)" by simp
    from af(5) [OF this] f4 have f: "food g' = food g2" by simp
    from pf(7) [OF True] obtain gs rs where
      "spawn_food gs r = Inr (gs\<lparr>food := food g2\<rparr>, rs)"
      "body (player gs) = body (player g1)" "ai_snake gs = ai_snake g1"
      "obstacles gs = obstacles g1" by blast
    then have "\<exists>gs rs. spawn_food gs r = Inr (gs\<lparr>food := food g'\<rparr>, rs) \<and>
           body (player gs) = body (player g1) \<and> ai_cells gs = ai_cells g1 \<and>
           obstacles gs = obstacles g"
      unfolding f by (intro exI [of _ gs] exI [of _ rs]) (simp add: ai_cells_def m(4))
    with pf(6) [OF True] f m(4) show ?thesis by simp
  next
    case False
    with that have c: "ae \<and> \<not> pe" by simp
    from False pf(5) have e: "g2 = g1" "r1 = r" by simp_all
    from af(6) [OF c] af(7) [OF c] show ?thesis
      unfolding f4 e m(4) by simp
  qed
  show "body (player g') = body (player g1)" by (simp add: pl m(2))
  show "score (player g') =
       score (player g) + (if player_will_eat_of g then player_points g else 0)"
    by (simp add: pl pe_def)
  show "direction (player g') = direction (player g)" by (simp add: pl)
  show "dom (power_ups (player g)) \<subseteq> dom (power_ups (player g'))"
    using mm' by (simp add: pl)
  show "obstacles g' = obstacles g" by (rule ob)
  show "ai_snake g1 = None \<Longrightarrow> ai_snake g' = None" by (rule aiN)
  show "\<And>a1. ai_snake g1 = Some a1 \<Longrightarrow>
        \<exists>b. ai_snake g' = Some (a1\<lparr>score := score a1 + (if ai_eats g then 10 else 0), alive := b\<rparr>)"
    using aiS ae_eq by simp
  show "\<not> player_will_eat_of g \<Longrightarrow> \<not> ai_eats g \<Longrightarrow> food g' = food g"
    using keep ae_eq by (simp add: pe_def)
  show "player_will_eat_of g \<or> ai_eats g \<Longrightarrow>
        food g' \<notin> set (body (player g1)) \<union> ai_cells g1 \<union> obstacles g"
    using fresh ae_eq by (simp add: pe_def)
  show "player_will_eat_of g \<or> ai_eats g \<Longrightarrow>
        \<exists>gs rs. spawn_food gs r = Inr (gs\<lparr>food := food g'\<rparr>, rs) \<and>
           body (player gs) = body (player g1) \<and> ai_cells gs = ai_cells g1 \<and>
           obstacles gs = obstacles g"
    using fresh ae_eq by (simp add: pe_def)
qed

lemma butlast_subset: "set (butlast xs) \<subseteq> set xs"
  by (induction xs) auto

lemma not_in_tl: "c \<notin> set xs \<Longrightarrow> c \<notin> set (tl xs)"
  by (cases xs) auto

lemma not_head_not_tl: "xs \<noteq> [] \<Longrightarrow> hd xs \<noteq> c \<Longrightarrow> c \<notin> set (tl xs) \<Longrightarrow> c \<notin> set (butlast xs)"
  using butlast_subset [of xs] by (cases xs) auto

section \<open>The food invariant\<close>

lemma food_clear_update:
  assumes "food_clear g" and "update g now r = Inr (g', ok, r')"
  shows "food_clear g'"
proof -
  from update_move_ex [OF assms(2)] obtain g1 where
    g1: "update_move g (player_will_eat_of g) (ai_eats g) = Inr g1" ..
  note e = update_effect [OF assms(2) g1]
  note m = update_move_facts [OF g1]
  have ai_rel: "\<exists>a1. ai_snake g1 = Some a1 \<and> body a' = body a1" if a': "ai_snake g' = Some a'" for a'
  proof (cases "ai_snake g1")
    case None
    from e(6) [OF None] a' show ?thesis by simp
  next
    case (Some a1)
    from e(7) [OF Some] a' have "body a' = body a1" by auto
    with Some show ?thesis by simp
  qed
  show ?thesis
  proof (cases "player_will_eat_of g \<or> ai_eats g")
    case True
    from e(9) [OF True] have f: "food g' \<notin> set (body (player g1))" "food g' \<notin> ai_cells g1"
      "food g' \<notin> obstacles g" by simp_all
    have "food g' \<notin> set (tl (body a'))" if a': "ai_snake g' = Some a'" for a'
    proof -
      from ai_rel [OF a'] obtain a1 where a1: "ai_snake g1 = Some a1" "body a' = body a1" by blast
      from f(2) a1(1) have "food g' \<notin> set (body a1)" by (simp add: ai_cells_def)
      with a1(2) show ?thesis by (simp add: not_in_tl)
    qed
    moreover from f(1) have "food g' \<notin> set (tl (body (player g')))"
      by (simp add: e(1) not_in_tl)
    ultimately show ?thesis using f(3) by (simp add: food_clear_def e(5))
  next
    case False
    then have npe: "\<not> player_will_eat_of g" and nae: "\<not> ai_eats g" by simp_all
    from e(8) [OF npe nae] have fd: "food g' = food g" .
    from assms(1) have c: "food g \<notin> obstacles g" "food g \<notin> set (tl (body (player g)))"
      "\<forall>a. ai_snake g = Some a \<longrightarrow> food g \<notin> set (tl (body a))"
      by (simp_all add: food_clear_def)
    from npe have "hd (body (player g)) \<noteq> food g" by (simp add: player_will_eat_of_def)
    from not_head_not_tl [OF m(1) this c(2)] npe
    have p: "food g \<notin> set (tl (body (player g')))"
      by (simp add: e(1) m(2) moved_body_def)
    have "food g \<notin> set (tl (body a'))" if a': "ai_snake g' = Some a'" for a'
    proof -
      from ai_rel [OF a'] obtain a1 where a1: "ai_snake g1 = Some a1" and b: "body a' = body a1"
        by blast
      from a1 m(7) obtain a where a: "ai_snake g = Some a" by (cases "ai_snake g") auto
      show ?thesis
      proof (cases "alive a")
        case dead: False
        from m(8) [OF a dead] a1 have "a1 = a" by simp
        with b c(3) a show ?thesis by simp
      next
        case True
        from m(9) [OF a True] a1 obtain d where
          ne: "body a \<noteq> []"
          and a1e: "a1 = a\<lparr>direction := d, body := moved_body (a\<lparr>direction := d\<rparr>) (ai_eats g)\<rparr>"
          by auto
        from nae a True have "hd (body a) \<noteq> food g" by (simp add: ai_eats_def)
        from not_head_not_tl [OF ne this] c(3) a have "food g \<notin> set (butlast (body a))" by simp
        with nae b a1e show ?thesis by (simp add: moved_body_def)
      qed
    qed
    with p c(1) fd show ?thesis by (simp add: food_clear_def e(5))
  qed
qed

lemma handle_input_frame:
  "handle_input g evs = (g', ok) \<Longrightarrow>
     body (player g') = body (player g) \<and> ai_snake g' = ai_snake g \<and> food g' = food g \<and>
     obstacles g' = obstacles g \<and> power_up g' = power_up g"
proof (induction g evs rule: handle_input.induct)
  case (1 g)
  then show ?case by simp
next
  case (2 g evs)
  then show ?case by auto
next
  case (3 g k evs)
  then show ?case
    by (auto simp: set_player_direction_def split: if_splits)
next
  case (4 g evs)
  then show ?case by simp
qed

lemma food_clear_handle_input:
  "handle_input g evs = (g', ok) \<Longrightarrow> food_clear g \<Longrightarrow> food_clear g'"
  by (drule handle_input_frame) (simp add: food_clear_def)

lemma food_clear_spawn_food:
  assumes "spawn_food g0 r0 = Inr (g, r)"
  shows "food_clear (g\<lparr>power_up := p\<rparr>)"
proof -
  from spawn_food_result [OF assms] obtain c where "g = g0\<lparr>food := c\<rparr>"
    "c \<notin> set (body (player g0))" "\<forall>a. ai_snake g0 = Some a \<longrightarrow> c \<notin> set (body a)"
    "c \<notin> obstacles g0" by blast
  then show ?thesis by (auto simp: food_clear_def not_in_tl)
qed

lemma active_round_food_clear: "active_round g \<Longrightarrow> food_clear g"
proof (induction rule: active_round.induct)
  case (start g0 r0 g r)
  then show ?case by (rule food_clear_spawn_food)
next
  case (tick g evs g1 now r g2 r')
  from food_clear_handle_input [OF tick(2) tick.IH] have "food_clear g1" .
  from food_clear_update [OF this tick(3)] show ?case .
qed

lemma single_key_never_reverses:
  "direction (player (fst (handle_input g [KEYDOWN k]))) \<noteq> opposite (direction (player g))"
  by (cases k; cases "direction (player g)")
     (simp_all add: opposite_def set_player_direction_def)

section \<open>The power-up dictionary as a parameter\<close>

lemma with_power_ups_sel [simp]:
  "ai_snake (with_power_ups g m) = ai_snake g"
  "food (with_power_ups g m) = food g"
  "power_up (with_power_ups g m) = power_up g"
  "obstacles (with_power_ups g m) = obstacles g"
  "running (with_power_ups g m) = running g"
  "player (with_power_ups g m) = (player g)\<lparr>power_ups := m\<rparr>"
  by (simp_all add: with_power_ups_def)

lemma with_power_ups_field:
  "(with_power_ups g m)\<lparr>food := c\<rparr> = with_power_ups (g\<lparr>food := c\<rparr>) m"
  "(with_power_ups g m)\<lparr>power_up := p\<rparr> = with_power_ups (g\<lparr>power_up := p\<rparr>) m"
  "(with_power_ups g m)\<lparr>ai_snake := a\<rparr> = with_power_ups (g\<lparr>ai_snake := a\<rparr>) m"
  by (simp_all add: with_power_ups_def)

lemma with_power_ups_score:
  "(with_power_ups g m)\<lparr>player := (player g)\<lparr>power_ups := m, score := v\<rparr>\<rparr> =
   with_power_ups (g\<lparr>player := (player g)\<lparr>score := v\<rparr>\<rparr>) m"
  by (cases g, cases "player g") (simp add: with_power_ups_def)

lemma move_with_pu:
  "move (s\<lparr>power_ups := m\<rparr>) f =
     (case move s f of Inl e \<Rightarrow> Inl e | Inr s' \<Rightarrow> Inr (s'\<lparr>power_ups := m\<rparr>))"
  by (simp add: move_def Let_def split: list.splits prod.splits)

lemma update_move_with_pu:
  "update_move (with_power_ups g m) pe ae =
     (case update_move g pe ae of Inl e \<Rightarrow> Inl e | Inr g' \<Rightarrow> Inr (with_power_ups g' m))"
  by (simp add: update_move_def move_with_pu with_power_ups_def
      split: sum.splits option.splits)

lemma spawn_food_with_pu:
  "spawn_food (with_power_ups g m) r =
     (case spawn_food g r of Inl e \<Rightarrow> Inl e | Inr (g', r') \<Rightarrow> Inr (with_power_ups g' m, r'))"
proof (induction g r rule: spawn_food.induct)
  case (1 g r)
  note unf = spawn_food.simps [of g r] spawn_food.simps [of "with_power_ups g m" r]
  show ?case
  proof (cases "randint 0 (GRID_WIDTH - 1) r")
    case (Inl e)
    then show ?thesis by (simp add: unf)
  next
    case (Inr xr)
    obtain cx r1 where xr: "xr = (cx, r1)" by (cases xr)
    show ?thesis
    proof (cases "randint 0 (GRID_HEIGHT - 1) r1")
      case (Inl e)
      with Inr xr show ?thesis by (simp add: unf)
    next
      case yI: (Inr yr)
      obtain cy r2 where yr: "yr = (cy, r2)" by (cases yr)
      let ?ok = "(cx, cy) \<notin> set (body (player g)) \<and>
                 (case ai_snake g of None \<Rightarrow> True | Some a \<Rightarrow> (cx, cy) \<notin> set (body a)) \<and>
                 (cx, cy) \<notin> obstacles g"
      show ?thesis
      proof (cases ?ok)
        case True
        with Inr xr yI yr show ?thesis
          by (simp add: unf with_power_ups_field)
      next
        case False
        note ih = "1.IH" [OF Inr xr [symmetric] yI yr [symmetric] False]
        from False Inr xr yI yr have "spawn_food g r = spawn_food g r2"
          by (auto simp: unf)
        moreover from False Inr xr yI yr
        have "spawn_food (with_power_ups g m) r = spawn_food (with_power_ups g m) r2"
          by (auto simp: unf)
        ultimately show ?thesis using ih by simp
      qed
    qed
  qed
qed

lemma spawn_power_up_loop_with_pu:
  "spawn_power_up_loop (with_power_ups g m) r =
     (case spawn_power_up_loop g r of Inl e \<Rightarrow> Inl e
      | Inr (g', r') \<Rightarrow> Inr (with_power_ups g' m, r'))"
proof (induction g r rule: spawn_power_up_loop.induct)
  case (1 g r)
  note unf = spawn_power_up_loop.simps [of g r]
    spawn_power_up_loop.simps [of "with_power_ups g m" r]
  show ?case
  proof (cases "randint 0 (GRID_WIDTH - 1) r")
    case (Inl e)
    then show ?thesis by (simp add: unf)
  next
    case (Inr xr)
    obtain cx r1 where xr: "xr = (cx, r1)" by (cases xr)
    show ?thesis
    proof (cases "randint 0 (GRID_HEIGHT - 1) r1")
      case (Inl e)
      with Inr xr show ?thesis by (simp add: unf)
    next
      case yI: (Inr yr)
      obtain cy r2 where yr: "yr = (cy, r2)" by (cases yr)
      let ?ok = "(cx, cy) \<notin> set (body (player g)) \<and> (cx, cy) \<noteq> food g \<and>
                 (cx, cy) \<notin> obstacles g"
      show ?thesis
      proof (cases ?ok)
        case True
        with Inr xr yI yr show ?thesis
          by (cases "choice_PowerUpType r2") (auto simp: unf with_power_ups_field)
      next
        case False
        note ih = "1.IH" [OF Inr xr [symmetric] yI yr [symmetric] False]
        from False Inr xr yI yr have "spawn_power_up_loop g r = spawn_power_up_loop g r2"
          by (auto simp: unf)
        moreover from False Inr xr yI yr
        have "spawn_power_up_loop (with_power_ups g m) r =
              spawn_power_up_loop (with_power_ups g m) r2"
          by (auto simp: unf)
        ultimately show ?thesis using ih by simp
      qed
    qed
  qed
qed

lemma spawn_power_up_with_pu:
  "spawn_power_up (with_power_ups g m) r =
     (case spawn_power_up g r of Inl e \<Rightarrow> Inl e | Inr (g', r') \<Rightarrow> Inr (with_power_ups g' m, r'))"
  by (simp add: spawn_power_up_def spawn_power_up_loop_with_pu split: sum.splits prod.splits)

lemma update_player_food_with_pu:
  assumes "DOUBLE_POINTS \<in> dom m \<longleftrightarrow> DOUBLE_POINTS \<in> dom (power_ups (player g))"
  shows "update_player_food (with_power_ups g m) pe r =
     (case update_player_food g pe r of Inl e \<Rightarrow> Inl e
      | Inr (g', r') \<Rightarrow> Inr (with_power_ups g' m, r'))"
proof (cases pe)
  case False
  then show ?thesis by (simp add: update_player_food_def)
next
  case True
  define v where "v = score (player g) +
    (if DOUBLE_POINTS \<in> dom (power_ups (player g)) then 10 * 2 else 10)"
  have l: "update_player_food (with_power_ups g m) pe r =
      (case spawn_food (with_power_ups (g\<lparr>player := (player g)\<lparr>score := v\<rparr>\<rparr>) m) r of
              Inl e \<Rightarrow> Inl e
            | Inr (g2, r1) \<Rightarrow>
                (case random_below 2 r1 of
                   Inl e \<Rightarrow> Inl e
                 | Inr (hit, r2) \<Rightarrow> if hit then spawn_power_up g2 r2 else Inr (g2, r2)))"
    using True assms
    by (cases "DOUBLE_POINTS \<in> dom (power_ups (player g))")
       (simp_all add: update_player_food_def Let_def v_def with_power_ups_score)
  have r: "update_player_food g pe r =
      (case spawn_food (g\<lparr>player := (player g)\<lparr>score := v\<rparr>\<rparr>) r of
              Inl e \<Rightarrow> Inl e
            | Inr (g2, r1) \<Rightarrow>
                (case random_below 2 r1 of
                   Inl e \<Rightarrow> Inl e
                 | Inr (hit, r2) \<Rightarrow> if hit then spawn_power_up g2 r2 else Inr (g2, r2)))"
    using True
    by (cases "DOUBLE_POINTS \<in> dom (power_ups (player g))")
       (simp_all add: update_player_food_def Let_def v_def)
  show ?thesis
    unfolding l r spawn_food_with_pu
    by (auto simp: spawn_power_up_with_pu split: sum.splits prod.splits)
qed

lemma update_ai_food_with_pu:
  "update_ai_food (with_power_ups g m) pe ae r =
     (case update_ai_food g pe ae r of Inl e \<Rightarrow> Inl e
      | Inr (g', r') \<Rightarrow> Inr (with_power_ups g' m, r'))"
proof -
  have c: "(case ai_snake g of None \<Rightarrow> with_power_ups g m
            | Some a \<Rightarrow> (with_power_ups g m)\<lparr>ai_snake := Some (a\<lparr>score := score a + 10\<rparr>)\<rparr>) =
           with_power_ups (case ai_snake g of None \<Rightarrow> g
            | Some a \<Rightarrow> g\<lparr>ai_snake := Some (a\<lparr>score := score a + 10\<rparr>)\<rparr>) m"
    by (simp add: with_power_ups_field split: option.splits)
  show ?thesis
    by (simp add: update_ai_food_def Let_def c spawn_food_with_pu)
qed

lemma update_power_up_with_pu:
  "\<exists>f. update_power_up (with_power_ups g m) now =
     (case update_power_up g now of Inl e \<Rightarrow> Inl e | Inr g' \<Rightarrow> Inr (with_power_ups g' (f m))) \<and>
     (\<forall>m. DOUBLE_POINTS \<in> dom m \<longrightarrow> DOUBLE_POINTS \<in> dom (f m))"
proof (cases "power_up g")
  case None
  then show ?thesis
    by (intro exI [of _ "\<lambda>m. m"]) (simp add: update_power_up_def)
next
  case (Some pu)
  show ?thesis
  proof (cases "first_cell (body (player g))")
    case (Inl e)
    with Some show ?thesis
      by (intro exI [of _ "\<lambda>m. m"]) (simp add: update_power_up_def)
  next
    case (Inr h)
    show ?thesis
    proof (cases "h = (pu_x pu, pu_y pu)")
      case True
      with Some Inr show ?thesis
        by (intro exI [of _ "\<lambda>m. m(pu_type pu \<mapsto> now)"])
           (simp add: update_power_up_def with_power_ups_def)
    next
      case False
      with Some Inr show ?thesis
        by (intro exI [of _ "\<lambda>m. m"]) (simp add: update_power_up_def)
    qed
  qed
qed

lemma check_collision_with_pu:
  "check_collision (s\<lparr>power_ups := m\<rparr>) obs = check_collision s obs"
  by (simp add: check_collision_def)

lemma update_collisions_with_pu:
  "update_collisions (with_power_ups g m) =
     (case update_collisions g of Inl e \<Rightarrow> Inl e
      | Inr (g', ok) \<Rightarrow> Inr (with_power_ups g' m, ok))"
  by (simp add: update_collisions_def check_collision_with_pu with_power_ups_def
      split: sum.splits option.splits)

section \<open>Correctness of the breadth-first search\<close>

lemma trace_snoc: "trace c (ds @ [d]) = trace c ds @ [step_cell (end_of c ds) d]"
  by (induction ds arbitrary: c) (simp_all add: end_of_def)

lemma end_of_simps [simp]:
  "end_of c [] = c"
  "end_of c (ds @ [d]) = step_cell (end_of c ds) d"
  by (simp_all add: end_of_def)

lemma trace_nonempty [simp]: "trace c ds \<noteq> []"
  by (cases ds) simp_all

lemma hd_trace [simp]: "hd (trace c ds) = c"
  by (cases ds) simp_all

lemma last_trace: "last (trace c ds) = end_of c ds"
  by (induction ds arbitrary: c) (simp_all add: end_of_def)

lemma length_trace [simp]: "length (trace c ds) = Suc (length ds)"
  by (induction ds arbitrary: c) simp_all

lemma walk_Nil [simp]: "walk sbody obs start []"
  by (simp add: walk_def)

lemma walk_snoc:
  "walk sbody obs start (ds @ [d]) \<longleftrightarrow>
     walk sbody obs start ds \<and> free_cell sbody obs (step_cell (end_of start ds) d)"
proof -
  have "tl (trace start (ds @ [d])) = tl (trace start ds) @ [step_cell (end_of start ds) d]"
    by (simp add: trace_snoc)
  then show ?thesis by (auto simp: walk_def)
qed

lemma step_cell_inj: "step_cell c d = step_cell c d' \<Longrightarrow> d = d'"
  by (cases d; cases d') (simp_all add: step_cell_def)

lemma rank_inj: "rank a = rank b \<Longrightarrow> a = b"
  by (cases a; cases b) simp_all

lemma trans_rank: "trans (measure rank)"
  by (simp add: trans_def)

lemma before_trans: "(a, b) \<in> before \<Longrightarrow> (b, c) \<in> before \<Longrightarrow> (a, c) \<in> before"
  unfolding before_def using lenlex_trans [OF _ _ trans_rank] by blast

lemma before_irrefl: "(a, a) \<notin> before"
  unfolding before_def by (rule lenlex_irreflexive) simp

lemma before_total: "a = b \<or> (a, b) \<in> before \<or> (b, a) \<in> before"
proof -
  have "rank x < rank y \<or> rank y < rank x" if "x \<noteq> y" for x y
    using that rank_inj [of x y] by linarith
  then have "total (measure rank)"
    by (simp add: total_on_def)
  then have "total (lenlex (measure rank))" by (rule total_lenlex)
  then show ?thesis by (auto simp: total_on_def before_def)
qed

lemma before_Nil [simp]: "([], w) \<in> before \<longleftrightarrow> w \<noteq> []"
  by (simp add: before_def)

lemma before_shorter: "length a < length b \<Longrightarrow> (a, b) \<in> before"
  by (simp add: before_def lenlex_conv)

lemma before_snoc_mono: "(a, b) \<in> before \<Longrightarrow> (a @ [x], b @ [y]) \<in> before"
  unfolding before_def by (rule lenlex_append1) simp_all

lemma before_same_prefix: "(a @ [x], a @ [y]) \<in> before \<longleftrightarrow> rank x < rank y"
proof -
  have "irrefl (measure rank)" by (simp add: irrefl_def)
  then show ?thesis
    by (simp add: before_def Cons_lenlex_iff)
qed

lemma before_length: "(a, b) \<in> before \<Longrightarrow> length a \<le> length b"
  unfolding before_def by (rule lenlex_length)

lemma try_visit_eq:
  "try_visit sbody obs pos path d (q, v) =
     (if accepted sbody obs v pos d
      then (q @ [(step_cell pos d, path @ [step_cell pos d])], insert (step_cell pos d) v)
      else (q, v))"
  by (cases pos; cases "delta d")
     (auto simp: try_visit_def accepted_def free_cell_def step_cell_def Let_def)

lemma accepted_insert:
  "d' \<noteq> d \<Longrightarrow>
   accepted sbody obs (insert (step_cell pos d) v) pos d' = accepted sbody obs v pos d'"
  by (auto simp: accepted_def dest: step_cell_inj)

lemma fold_try_visit:
  "distinct ds \<Longrightarrow>
   fold (try_visit sbody obs pos path) ds (q, v) =
     (q @ map (\<lambda>d. (step_cell pos d, path @ [step_cell pos d]))
            (filter (accepted sbody obs v pos) ds),
      v \<union> step_cell pos ` set (filter (accepted sbody obs v pos) ds))"
proof (induction ds arbitrary: q v)
  case Nil
  then show ?case by simp
next
  case (Cons d ds)
  from Cons.prems have dist: "distinct ds" and notin: "d \<notin> set ds" by simp_all
  show ?case
  proof (cases "accepted sbody obs v pos d")
    case True
    have same: "filter (accepted sbody obs (insert (step_cell pos d) v) pos) ds =
                filter (accepted sbody obs v pos) ds"
      using notin by (intro filter_cong refl accepted_insert) auto
    from True show ?thesis
      by (simp add: try_visit_eq Cons.IH [OF dist] same)
  next
    case False
    then show ?thesis
      by (simp add: try_visit_eq Cons.IH [OF dist])
  qed
qed

lemma expand_eq:
  "expand sbody obs (end_of start ds0) (trace start ds0) (map (entry start) dss, V) =
     (map (entry start)
        (dss @ map (\<lambda>d. ds0 @ [d])
           (filter (accepted sbody obs V (end_of start ds0)) Direction_members)),
      V \<union> step_cell (end_of start ds0) `
            set (filter (accepted sbody obs V (end_of start ds0)) Direction_members))"
proof -
  have "distinct Direction_members" by (simp add: Direction_members_def)
  then show ?thesis
    by (simp add: expand_def fold_try_visit entry_def trace_snoc comp_def)
qed

lemma all_directions: "d \<in> set Direction_members"
  by (cases d) (simp_all add: Direction_members_def)

lemma sorted_members: "sorted_wrt (\<lambda>a b. rank a < rank b) Direction_members"
  by (simp add: Direction_members_def)

lemma frontier_least:
  assumes inv: "bfs_inv sbody obs start goal (ds0 # dss) V"
    and w: "walk sbody obs start x"
    and out: "end_of start x \<notin> V - end_of start ` set (ds0 # dss)"
  shows "x = ds0 \<or> (ds0, x) \<in> before"
proof -
  from inv have sorted: "\<forall>q \<in> set dss. (ds0, q) \<in> before"
    and minimal: "\<forall>ds \<in> set (ds0 # dss). \<forall>w. walk sbody obs start w \<and>
        end_of start w = end_of start ds \<longrightarrow> w = ds \<or> (ds, w) \<in> before"
    and closed: "\<forall>u \<in> V - end_of start ` set (ds0 # dss). \<forall>d.
        free_cell sbody obs (step_cell u d) \<longrightarrow> step_cell u d \<in> V"
    and start: "start \<in> V"
    by (simp_all add: bfs_inv_def)
  have seen: "y = ds0 \<or> (ds0, y) \<in> before"
    if wy: "walk sbody obs start y" and iv: "end_of start y \<in> V"
      and oy: "end_of start y \<notin> V - end_of start ` set (ds0 # dss)" for y
  proof -
    from iv oy obtain q where q: "q \<in> set (ds0 # dss)"
      and eq: "end_of start y = end_of start q" by auto
    from minimal q wy eq have "y = q \<or> (q, y) \<in> before" by blast
    moreover from q sorted have "q = ds0 \<or> (ds0, q) \<in> before" by auto
    ultimately show ?thesis by (auto intro: before_trans)
  qed
  from w out show ?thesis
  proof (induction x rule: rev_induct)
    case Nil
    from seen [OF Nil(1) _ Nil(2)] start show ?case by simp
  next
    case (snoc e x)
    from snoc.prems(1) have wx: "walk sbody obs start x"
      and fr: "free_cell sbody obs (step_cell (end_of start x) e)"
      by (simp_all add: walk_snoc)
    show ?case
    proof (cases "end_of start (x @ [e]) \<in> V")
      case True
      from seen [OF snoc.prems(1) True snoc.prems(2)] show ?thesis .
    next
      case False
      have "end_of start x \<notin> V - end_of start ` set (ds0 # dss)"
      proof
        assume "end_of start x \<in> V - end_of start ` set (ds0 # dss)"
        with closed fr have "step_cell (end_of start x) e \<in> V" by blast
        with False show False by simp
      qed
      from snoc.IH [OF wx this] have "x = ds0 \<or> (ds0, x) \<in> before" .
      moreover have "(x, x @ [e]) \<in> before" by (simp add: before_shorter)
      ultimately show ?thesis by (auto intro: before_trans)
    qed
  qed
qed

lemma bfs_inv_step:
  assumes inv: "bfs_inv sbody obs start goal (ds0 # dss) V"
    and ng: "end_of start ds0 \<noteq> goal"
    and acc: "acc = filter (accepted sbody obs V (end_of start ds0)) Direction_members"
  shows "bfs_inv sbody obs start goal (dss @ map (\<lambda>d. ds0 @ [d]) acc)
           (V \<union> step_cell (end_of start ds0) ` set acc)"
proof -
  let ?pos = "end_of start ds0"
  let ?new = "map (\<lambda>d. ds0 @ [d]) acc"
  let ?Q = "dss @ ?new"
  let ?V = "V \<union> step_cell ?pos ` set acc"
  from inv have w0: "walk sbody obs start ds0"
    and wall: "\<forall>ds \<in> set dss. walk sbody obs start ds \<and> end_of start ds \<in> V"
    and lead: "\<forall>q \<in> set dss. (ds0, q) \<in> before"
    and sorted: "sorted_wrt (\<lambda>a b. (a, b) \<in> before) dss"
    and minimal: "\<forall>ds \<in> set dss. \<forall>w. walk sbody obs start w \<and>
        end_of start w = end_of start ds \<longrightarrow> w = ds \<or> (ds, w) \<in> before"
    and bound: "\<forall>q \<in> set dss. \<forall>d. (q, ds0 @ [d]) \<in> before"
    and closed: "\<forall>u \<in> V - end_of start ` set (ds0 # dss). \<forall>d.
        free_cell sbody obs (step_cell u d) \<longrightarrow> step_cell u d \<in> V"
    and goal: "goal \<notin> V - end_of start ` set (ds0 # dss)"
    and start: "start \<in> V"
    by (simp_all add: bfs_inv_def)
  have acc_iff: "d \<in> set acc \<longleftrightarrow> accepted sbody obs V ?pos d" for d
    by (simp add: acc all_directions)
  have acc_free: "free_cell sbody obs (step_cell ?pos d)" and acc_new: "step_cell ?pos d \<notin> V"
    if "d \<in> set acc" for d
    using that by (simp_all add: acc_iff accepted_def)
  have ends: "end_of start ` set ?Q = end_of start ` set dss \<union> step_cell ?pos ` set acc"
    by (auto simp: image_Un image_image)
  \<comment> \<open>the processed cells grow by the cell just expanded\<close>
  have processed: "?V - end_of start ` set ?Q \<subseteq> (V - end_of start ` set (ds0 # dss)) \<union> {?pos}"
    unfolding ends by auto
  have c1: "\<forall>ds \<in> set ?Q. walk sbody obs start ds \<and> end_of start ds \<in> ?V"
    using wall w0 acc_free by (auto simp: walk_snoc)
  have acc_sorted: "sorted_wrt (\<lambda>a b. rank a < rank b) acc"
    unfolding acc by (rule sorted_wrt_filter) (rule sorted_members)
  have new_sorted: "sorted_wrt (\<lambda>a b. (a, b) \<in> before) ?new"
    using acc_sorted by (simp add: sorted_wrt_map before_same_prefix)
  have c2: "sorted_wrt (\<lambda>a b. (a, b) \<in> before) ?Q"
    using sorted new_sorted bound by (auto simp: sorted_wrt_append)
  have new_minimal: "w = ds0 @ [d] \<or> (ds0 @ [d], w) \<in> before"
    if d: "d \<in> set acc" and w: "walk sbody obs start w"
      and e: "end_of start w = step_cell ?pos d" for d w
  proof (cases w rule: rev_cases)
    case Nil
    with e start acc_new [OF d] show ?thesis by simp
  next
    case (snoc x e')
    with w have wx: "walk sbody obs start x"
      and fr: "free_cell sbody obs (step_cell (end_of start x) e')"
      by (simp_all add: walk_snoc)
    from snoc e have st: "step_cell (end_of start x) e' = step_cell ?pos d" by simp
    have "end_of start x \<notin> V - end_of start ` set (ds0 # dss)"
    proof
      assume "end_of start x \<in> V - end_of start ` set (ds0 # dss)"
      with closed fr have "step_cell (end_of start x) e' \<in> V" by blast
      with st acc_new [OF d] show False by simp
    qed
    from frontier_least [OF inv wx this] show ?thesis
    proof
      assume "x = ds0"
      with st have "e' = d" by (auto dest: step_cell_inj)
      with \<open>x = ds0\<close> snoc show ?thesis by simp
    next
      assume "(ds0, x) \<in> before"
      then have "(ds0 @ [d], x @ [e']) \<in> before" by (rule before_snoc_mono)
      with snoc show ?thesis by simp
    qed
  qed
  have c3: "\<forall>ds \<in> set ?Q. \<forall>w. walk sbody obs start w \<and>
        end_of start w = end_of start ds \<longrightarrow> w = ds \<or> (ds, w) \<in> before"
  proof (intro ballI allI impI)
    fix ds w
    assume ds: "ds \<in> set ?Q"
      and w: "walk sbody obs start w \<and> end_of start w = end_of start ds"
    from ds have "ds \<in> set dss \<or> (\<exists>d \<in> set acc. ds = ds0 @ [d])" by auto
    then show "w = ds \<or> (ds, w) \<in> before"
    proof
      assume "ds \<in> set dss"
      with minimal w show ?thesis by blast
    next
      assume "\<exists>d \<in> set acc. ds = ds0 @ [d]"
      then obtain d where d: "d \<in> set acc" "ds = ds0 @ [d]" by blast
      with w have "end_of start w = step_cell ?pos d" by simp
      from new_minimal [OF d(1) _ this] w d(2) show ?thesis by simp
    qed
  qed
  have c4: "\<forall>q \<in> set ?Q. \<forall>d. (q, hd ?Q @ [d]) \<in> before"
  proof (intro ballI allI)
    fix q d
    assume q: "q \<in> set ?Q"
    then have ne: "?Q \<noteq> []" by auto
    then have "hd ?Q \<in> set ?Q" by (rule hd_in_set)
    then have "hd ?Q \<in> set dss \<or> (\<exists>d'. hd ?Q = ds0 @ [d'])" by auto
    then have h: "(ds0, hd ?Q) \<in> before"
      using lead by (auto simp: before_shorter)
    from q have "q \<in> set dss \<or> (\<exists>d'. q = ds0 @ [d'])" by auto
    then show "(q, hd ?Q @ [d]) \<in> before"
    proof
      assume "q \<in> set dss"
      with bound have "(q, ds0 @ [d]) \<in> before" by simp
      moreover from h have "(ds0 @ [d], hd ?Q @ [d]) \<in> before" by (rule before_snoc_mono)
      ultimately show ?thesis by (rule before_trans)
    next
      assume "\<exists>d'. q = ds0 @ [d']"
      then obtain d' where "q = ds0 @ [d']" ..
      with before_snoc_mono [OF h, of d' d] show ?thesis by simp
    qed
  qed
  have c5: "\<forall>u \<in> ?V - end_of start ` set ?Q. \<forall>d.
        free_cell sbody obs (step_cell u d) \<longrightarrow> step_cell u d \<in> ?V"
  proof (intro ballI allI impI)
    fix u d
    assume u: "u \<in> ?V - end_of start ` set ?Q" and fr: "free_cell sbody obs (step_cell u d)"
    from processed u have "u \<in> V - end_of start ` set (ds0 # dss) \<or> u = ?pos" by auto
    then show "step_cell u d \<in> ?V"
    proof
      assume "u \<in> V - end_of start ` set (ds0 # dss)"
      with closed fr show ?thesis by blast
    next
      assume "u = ?pos"
      with fr show ?thesis
        by (cases "step_cell ?pos d \<in> V") (auto simp: acc_iff accepted_def)
    qed
  qed
  have c6: "goal \<notin> ?V - end_of start ` set ?Q"
    using processed goal ng by auto
  from c1 c2 c3 c4 c5 c6 start show ?thesis
    unfolding bfs_inv_def by (intro conjI) simp_all
qed

lemma bfs_inv_init: "bfs_inv sbody obs start goal [[]] {start}"
  by (auto simp: bfs_inv_def)

lemma bfs_inv_done:
  assumes inv: "bfs_inv sbody obs start goal [] V"
    and w: "walk sbody obs start w"
  shows "end_of start w \<noteq> goal"
proof -
  from inv have closed: "\<forall>u \<in> V. \<forall>d. free_cell sbody obs (step_cell u d) \<longrightarrow> step_cell u d \<in> V"
    and goal: "goal \<notin> V" and start: "start \<in> V"
    by (simp_all add: bfs_inv_def)
  from w have "end_of start w \<in> V"
  proof (induction w rule: rev_induct)
    case Nil
    with start show ?case by simp
  next
    case (snoc d x)
    then show ?case using closed by (simp add: walk_snoc)
  qed
  with goal show ?thesis by auto
qed

lemma bfs_loop_correct:
  assumes "bfs_inv sbody obs start goal dss V" and "queue = map (entry start) dss"
  shows "case bfs_loop sbody goal obs queue V of
           None \<Rightarrow> (\<forall>w. walk sbody obs start w \<longrightarrow> end_of start w \<noteq> goal)
         | Some p \<Rightarrow> \<exists>ds. p = trace start ds \<and> best_walk sbody obs start goal ds"
  using assms
proof (induction sbody goal obs queue V arbitrary: dss rule: bfs_loop.induct)
  case (1 sbody goal obs visited)
  then have "dss = []" by simp
  with 1 show ?case by (auto dest: bfs_inv_done)
next
  case (2 sbody goal obs pos path queue visited)
  from "2.prems"(2) obtain ds0 dss' where dss: "dss = ds0 # dss'"
    and pos: "pos = end_of start ds0" and path: "path = trace start ds0"
    and queue: "queue = map (entry start) dss'"
    by (cases dss) (auto simp: entry_def)
  note inv = "2.prems"(1) [unfolded dss]
  show ?case
  proof (cases "pos = goal")
    case True
    from inv have "walk sbody obs start ds0"
      "\<forall>w. walk sbody obs start w \<and> end_of start w = end_of start ds0 \<longrightarrow>
         w = ds0 \<or> (ds0, w) \<in> before"
      by (simp_all add: bfs_inv_def)
    with True pos have "best_walk sbody obs start goal ds0"
      by (simp add: best_walk_def)
    with True path show ?thesis by auto
  next
    case False
    define acc where "acc = filter (accepted sbody obs visited (end_of start ds0)) Direction_members"
    define Q where "Q = dss' @ map (\<lambda>d. ds0 @ [d]) acc"
    define W where "W = visited \<union> step_cell (end_of start ds0) ` set acc"
    have ex: "expand sbody obs pos path (queue, visited) = (map (entry start) Q, W)"
      unfolding pos path queue Q_def W_def acc_def by (rule expand_eq)
    from False pos have ng: "end_of start ds0 \<noteq> goal" by simp
    from bfs_inv_step [OF inv ng acc_def] have inv': "bfs_inv sbody obs start goal Q W"
      by (simp add: Q_def W_def)
    from "2.IH" [OF False ex [symmetric] inv' refl]
    have "case bfs_loop sbody goal obs (map (entry start) Q) W of
           None \<Rightarrow> (\<forall>w. walk sbody obs start w \<longrightarrow> end_of start w \<noteq> goal)
         | Some p \<Rightarrow> \<exists>ds. p = trace start ds \<and> best_walk sbody obs start goal ds" .
    with False ex show ?thesis by simp
  qed
qed

lemma bfs_path_correct:
  "case bfs_path s start goal obstacles_arg of
     None \<Rightarrow> (\<forall>w. walk (body s) (case obstacles_arg of None \<Rightarrow> {} | Some os \<Rightarrow> os) start w \<longrightarrow>
               end_of start w \<noteq> goal)
   | Some p \<Rightarrow> \<exists>ds. p = trace start ds \<and>
       best_walk (body s) (case obstacles_arg of None \<Rightarrow> {} | Some os \<Rightarrow> os) start goal ds"
proof -
  have q: "[(start, [start])] = map (entry start) [[]]" by (simp add: entry_def)
  from bfs_loop_correct [OF bfs_inv_init q] show ?thesis
    by (simp add: bfs_path_def Let_def)
qed

lemma direction_between_step [simp]: "direction_between a (step_cell a d) = d"
  by (cases d) (auto simp: direction_between_def step_cell_def)

lemma moves_trace [simp]: "moves (trace c ds) = ds"
proof (induction ds arbitrary: c)
  case Nil
  then show ?case by simp
next
  case (Cons d ds)
  from Cons.IH [of "step_cell c d"] show ?case
    by (cases ds) simp_all
qed

lemma adjacent_iff: "adjacent a b \<longleftrightarrow> (\<exists>d. b = step_cell a d)"
proof
  assume "adjacent a b"
  then have "b = step_cell a UP \<or> b = step_cell a DOWN \<or> b = step_cell a LEFT \<or>
             b = step_cell a RIGHT"
    by (cases a; cases b) (auto simp: adjacent_def step_cell_def)
  then show "\<exists>d. b = step_cell a d" by blast
next
  assume "\<exists>d. b = step_cell a d"
  then obtain d where "b = step_cell a d" ..
  then show "adjacent a b"
    by (cases d) (simp_all add: adjacent_def step_cell_def)
qed

lemma walk_Cons:
  "walk sbody obs c (d # ds) \<longleftrightarrow>
     free_cell sbody obs (step_cell c d) \<and> walk sbody obs (step_cell c d) ds"
  by (cases ds) (auto simp: walk_def)

lemma end_of_Cons [simp]: "end_of c (d # ds) = end_of (step_cell c d) ds"
  by (simp add: end_of_def)

lemma route_of_walk:
  "walk sbody obs start ds \<Longrightarrow> route sbody obs start (end_of start ds) (trace start ds)"
proof (induction ds arbitrary: start)
  case Nil
  then show ?case by (simp add: route_def)
next
  case (Cons d ds)
  from Cons.prems have fr: "free_cell sbody obs (step_cell start d)"
    and w: "walk sbody obs (step_cell start d) ds"
    by (simp_all add: walk_Cons)
  from Cons.IH [OF w] have r: "route sbody obs (step_cell start d)
      (end_of (step_cell start d) ds) (trace (step_cell start d) ds)" .
  have "adjacent ((start # trace (step_cell start d) ds) ! i)
          ((start # trace (step_cell start d) ds) ! Suc i) \<and>
        free_cell sbody obs ((start # trace (step_cell start d) ds) ! Suc i)"
    if "i < length (trace (step_cell start d) ds)" for i
  proof (cases i)
    case 0
    have "trace (step_cell start d) ds ! 0 = step_cell start d"
      by (cases ds) simp_all
    with 0 fr show ?thesis by (auto simp: adjacent_iff)
  next
    case (Suc j)
    with that r show ?thesis by (simp add: route_def)
  qed
  with r show ?case
    by (simp add: route_def last_trace)
qed

lemma walk_of_route:
  "route sbody obs start goal p \<Longrightarrow>
   \<exists>ds. p = trace start ds \<and> walk sbody obs start ds \<and> end_of start ds = goal"
proof (induction p arbitrary: start)
  case Nil
  then show ?case by (simp add: route_def)
next
  case (Cons a p)
  from Cons.prems have a: "a = start" by (simp add: route_def)
  show ?case
  proof (cases p)
    case Nil
    with Cons.prems a show ?thesis
      by (intro exI [of _ "[]"]) (simp add: route_def)
  next
    case (Cons b p')
    from Cons.prems Cons have adj: "adjacent a b" and fr: "free_cell sbody obs b"
      by (auto simp: route_def dest: spec [of _ 0])
    from adj obtain d where d: "b = step_cell a d" by (auto simp: adjacent_iff)
    have "route sbody obs b goal p"
      unfolding route_def
    proof (intro conjI allI impI)
      show "p \<noteq> []" "hd p = b" using Cons by simp_all
      show "last p = goal" using Cons.prems Cons by (simp add: route_def)
      show "adjacent (p ! i) (p ! Suc i)" if "Suc i < length p" for i
        using Cons.prems that by (auto simp: route_def dest: spec [of _ "Suc i"])
      show "free_cell sbody obs (p ! Suc i)" if "Suc i < length p" for i
        using Cons.prems that by (auto simp: route_def dest: spec [of _ "Suc i"])
    qed
    from Cons.IH [OF this] obtain ds where
      ds: "p = trace b ds" "walk sbody obs b ds" "end_of b ds = goal" by blast
    with a d fr show ?thesis
      by (intro exI [of _ "d # ds"]) (simp add: walk_Cons)
  qed
qed

lemma before_same_length:
  assumes "(ds, w) \<in> before" and "length w = length ds"
  shows "earlier ds w"
proof -
  from assms have "(ds, w) \<in> lex (measure rank)"
    by (simp add: before_def lenlex_conv)
  then show ?thesis
    by (auto simp: lex_conv earlier_def)
qed

lemma trace_second:
  "trace c (d # ds) ! 0 = c" "trace c (d # ds) ! 1 = step_cell c d"
  by (cases ds; simp)+

section \<open>Ticks that return\<close>

lemma randint_grid:
  "randint 0 (GRID_WIDTH - 1) (n # r) = Inr (int n mod GRID_WIDTH, r)"
  "randint 0 (GRID_HEIGHT - 1) (n # r) = Inr (int n mod GRID_HEIGHT, r)"
  by simp_all

lemma spawn_food_first:
  "spawn_food g (a # b # r) =
     (if food_ok g (drawn_cell (a, b)) then Inr (g\<lparr>food := drawn_cell (a, b)\<rparr>, r)
      else spawn_food g r)"
proof -
  show ?thesis
    by (subst spawn_food.simps)
       (auto simp: randint_grid food_ok_def ai_cells_def drawn_cell_def split: option.splits)
qed

lemma spawn_food_retry:
  assumes "\<forall>q \<in> set rejected. \<not> food_ok g (drawn_cell q)" and "food_ok g (drawn_cell p)"
  shows "spawn_food g (draws rejected @ fst p # snd p # r) = Inr (g\<lparr>food := drawn_cell p\<rparr>, r)"
  using assms(1)
proof (induction rejected)
  case Nil
  from assms(2) show ?case
    using spawn_food_first [of g "fst p" "snd p" r] by simp
next
  case (Cons q rejected)
  then have "\<not> food_ok g (drawn_cell q)" and "\<forall>q \<in> set rejected. \<not> food_ok g (drawn_cell q)"
    by simp_all
  with Cons.IH show ?case
    using spawn_food_first [of g "fst q" "snd q" "draws rejected @ fst p # snd p # r"] by simp
qed

lemma spawn_power_up_loop_first:
  "spawn_power_up_loop g (a # b # r) =
     (if power_up_ok g (drawn_cell (a, b)) then
        (case choice_PowerUpType r of
           Inl e \<Rightarrow> Inl e
         | Inr (power_type, r3) \<Rightarrow>
             Inr (g\<lparr>power_up := Some (new_PowerUp (fst (drawn_cell (a, b)))
                    (snd (drawn_cell (a, b))) power_type)\<rparr>, r3))
      else spawn_power_up_loop g r)"
proof -
  show ?thesis
    by (subst spawn_power_up_loop.simps)
       (auto simp: randint_grid power_up_ok_def drawn_cell_def split: sum.splits)
qed

lemma spawn_power_up_loop_retry:
  assumes "\<forall>q \<in> set rejected. \<not> power_up_ok g (drawn_cell q)" and "power_up_ok g (drawn_cell p)"
  shows "spawn_power_up_loop g (draws rejected @ fst p # snd p # k # r) =
           Inr (g\<lparr>power_up := Some (new_PowerUp (fst (drawn_cell p)) (snd (drawn_cell p))
                  (PowerUpType_members ! (k mod length PowerUpType_members)))\<rparr>, r)"
  using assms(1)
proof (induction rejected)
  case Nil
  from assms(2) show ?case
    using spawn_power_up_loop_first [of g "fst p" "snd p" "k # r"]
    by simp
next
  case (Cons q rejected)
  then have "\<not> power_up_ok g (drawn_cell q)"
    and "\<forall>q \<in> set rejected. \<not> power_up_ok g (drawn_cell q)"
    by simp_all
  with Cons.IH show ?case
    using spawn_power_up_loop_first [of g "fst q" "snd q" "draws rejected @ fst p # snd p # k # r"]
    by simp
qed

lemma move_total: "body s \<noteq> [] \<Longrightarrow> move s f = Inr (s\<lparr>body := moved_body s f\<rparr>)"
proof -
  assume "body s \<noteq> []"
  then obtain hx hy rest where b: "body s = (hx, hy) # rest"
    by (cases "body s") auto
  obtain dx dy where d: "delta (direction s) = (dx, dy)"
    by (cases "delta (direction s)")
  show ?thesis
    by (simp add: move_def moved_body_def b d Let_def)
qed

lemma bfs_path_at_goal: "bfs_path s c c obs = Some [c]"
  by (simp add: bfs_path_def)

lemma ai_move_on_food:
  assumes "body a \<noteq> []"
  shows "ai_move a (hd (body a)) obs = Inr a"
proof -
  from assms obtain h rest where b: "body a = h # rest" by (cases "body a") auto
  show ?thesis by (simp add: ai_move_def b bfs_path_at_goal)
qed

lemma update_compose:
  assumes "first_cell (body (player g)) = Inr h"
    and "ai_will_eat_of g = Inr ae"
    and "update_move g (h = food g) ae = Inr g1"
    and "update_player_food g1 (h = food g) r = Inr (g2, r1)"
    and "update_ai_food g2 (h = food g) ae r1 = Inr (g3, r2)"
    and "update_power_up g3 now = Inr g4"
    and "update_collisions g4 = Inr (g5, ok)"
  shows "update g now r = Inr (g5, ok, r2)"
  by (simp add: update_def assms)

lemma update_power_up_total:
  assumes "body (player g) \<noteq> []"
  shows "\<exists>g4. update_power_up g now = Inr g4 \<and> food g4 = food g \<and>
           body (player g4) = body (player g) \<and> ai_snake g4 = ai_snake g \<and>
           obstacles g4 = obstacles g"
proof -
  from assms obtain h rest where b: "body (player g) = h # rest"
    by (cases "body (player g)") auto
  show ?thesis
    by (cases "power_up g") (simp_all add: update_power_up_def first_cell_def b)
qed

lemma check_collision_total: "body s \<noteq> [] \<Longrightarrow> \<exists>b. check_collision s obs = Inr b"
  by (cases "body s") (auto simp: check_collision_def)

lemma update_collisions_total:
  assumes "body (player g) \<noteq> []"
    and "\<And>a. ai_snake g = Some a \<Longrightarrow> alive a \<Longrightarrow> body a \<noteq> []"
  shows "\<exists>g5 ok. update_collisions g = Inr (g5, ok) \<and> food g5 = food g"
proof -
  from check_collision_total [OF assms(1)] obtain b where
    b: "check_collision (player g) (Some (obstacles g)) = Inr b" by blast
  show ?thesis
  proof (cases b)
    case True
    with b show ?thesis by (auto simp: update_collisions_def)
  next
    case False
    show ?thesis
    proof (cases "ai_snake g")
      case None
      with b False show ?thesis by (auto simp: update_collisions_def)
    next
      case (Some a)
      show ?thesis
      proof (cases "alive a")
        case dead: False
        with b False Some show ?thesis by (auto simp: update_collisions_def)
      next
        case True
        from check_collision_total [OF assms(2) [OF Some True]] obtain c where
          "check_collision a (Some (obstacles g)) = Inr c" by blast
        with b False Some True show ?thesis
          by (cases c) (auto simp: update_collisions_def)
      qed
    qed
  qed
qed

lemma moved_body_nonempty [simp]: "moved_body s f \<noteq> []"
  by (simp add: moved_body_def)

lemma food_ok_after_meal:
  "food_ok (after_meal g a c) x \<longleftrightarrow>
     x \<notin> set (moved_body (player g) True) \<and> x \<notin> set (moved_body a True) \<and> x \<notin> obstacles g"
  by (simp add: food_ok_def after_meal_def ai_cells_def)

lemma power_up_ok_power_up [simp]: "power_up_ok (g\<lparr>power_up := p\<rparr>) x = power_up_ok g x"
  by (simp add: power_up_ok_def)

lemma update_player_food_returns:
  assumes rej: "\<forall>q \<in> set rejected. \<not> food_ok g (drawn_cell q)"
    and acc: "food_ok g (drawn_cell p)"
    and att: "attempt_draws
                (g\<lparr>player := (player g)\<lparr>score := score (player g) + player_points g\<rparr>,
                   food := drawn_cell p\<rparr>) t"
  shows "\<exists>pu. update_player_food g True (draws rejected @ fst p # snd p # t @ rest) =
           Inr (g\<lparr>player := (player g)\<lparr>score := score (player g) + player_points g\<rparr>,
                  food := drawn_cell p, power_up := pu\<rparr>, rest)"
proof -
  let ?g1 = "g\<lparr>player := (player g)\<lparr>score := score (player g) + player_points g\<rparr>\<rparr>"
  let ?g2 = "?g1\<lparr>food := drawn_cell p\<rparr>"
  have ok: "food_ok ?g1 x = food_ok g x" for x
    by (simp add: food_ok_def ai_cells_def)
  from spawn_food_retry [of rejected ?g1 p "t @ rest"] rej acc
  have sf: "spawn_food ?g1 (draws rejected @ fst p # snd p # t @ rest) = Inr (?g2, t @ rest)"
    by (simp add: ok)
  have unf: "update_player_food g True (draws rejected @ fst p # snd p # t @ rest) =
      (case random_below 2 (t @ rest) of
         Inl e \<Rightarrow> Inl e
       | Inr (h, r2) \<Rightarrow> if h then spawn_power_up ?g2 r2 else Inr (?g2, r2))"
  proof (cases "DOUBLE_POINTS \<in> dom (power_ups (player g))")
    case True
    then have pts: "player_points g = 20" by (simp add: player_points_def)
    from True sf [unfolded pts] show ?thesis
      unfolding pts by (simp add: update_player_food_def Let_def)
  next
    case False
    then have pts: "player_points g = 10" by (simp add: player_points_def)
    from False sf [unfolded pts] show ?thesis
      unfolding pts by (simp add: update_player_food_def Let_def)
  qed
  from att consider
    (miss) n where "t = [n]" "\<not> draw_below 2 n"
    | (miss3) n m where "t = [n, m]" "draw_below 2 n" "\<not> draw_below 3 m"
    | (place) n m rej2 p2 k where "t = n # m # draws rej2 @ [fst p2, snd p2, k]" "draw_below 2 n" "draw_below 3 m"
        "\<forall>q \<in> set rej2. \<not> power_up_ok ?g2 (drawn_cell q)" "power_up_ok ?g2 (drawn_cell p2)"
    unfolding attempt_draws_def by blast
  then show ?thesis
  proof cases
    case miss
    then have "update_player_food g True (draws rejected @ fst p # snd p # t @ rest) =
        Inr (?g2, rest)"
      unfolding unf by (simp add: draw_below_def)
    then show ?thesis by (intro exI [of _ "power_up g"]) simp
  next
    case miss3
    then have "update_player_food g True (draws rejected @ fst p # snd p # t @ rest) =
        Inr (?g2, rest)"
      unfolding unf by (simp add: draw_below_def spawn_power_up_def)
    then show ?thesis by (intro exI [of _ "power_up g"]) simp
  next
    case place
    from spawn_power_up_loop_retry [OF place(4) place(5), of k rest]
    have "spawn_power_up_loop ?g2 (draws rej2 @ fst p2 # snd p2 # k # rest) =
           Inr (?g2\<lparr>power_up := Some (new_PowerUp (fst (drawn_cell p2)) (snd (drawn_cell p2))
                  (PowerUpType_members ! (k mod length PowerUpType_members)))\<rparr>, rest)" .
    with place(1-3) have "update_player_food g True (draws rejected @ fst p # snd p # t @ rest) =
        Inr (?g2\<lparr>power_up := Some (new_PowerUp (fst (drawn_cell p2)) (snd (drawn_cell p2))
                  (PowerUpType_members ! (k mod length PowerUpType_members)))\<rparr>, rest)"
      unfolding unf by (simp add: draw_below_def spawn_power_up_def)
    then show ?thesis by (intro exI) simp
  qed
qed

lemma meal_tick_returns:
  assumes p: "body (player g) \<noteq> []" "hd (body (player g)) = food g"
    and a: "ai_snake g = Some a" "alive a" "body a \<noteq> []" "hd (body a) = food g"
    and rej: "\<forall>q \<in> set rejected. \<not> food_ok (after_meal g a (drawn_cell c)) (drawn_cell q)"
    and acc: "food_ok (after_meal g a (drawn_cell c)) (drawn_cell c)"
    and att: "attempt_draws (after_meal g a (drawn_cell c)) t"
  shows "\<exists>g' ok. update g now (draws rejected @ fst c # snd c # t @ rest) = Inr (g', ok, rest) \<and>
           food g' = drawn_cell c"
proof -
  define g1 where "g1 = g\<lparr>player := (player g)\<lparr>body := moved_body (player g) True\<rparr>,
                          ai_snake := Some (a\<lparr>body := moved_body a True\<rparr>)\<rparr>"
  from p have h: "first_cell (body (player g)) = Inr (food g)"
    by (cases "body (player g)") (simp_all add: first_cell_def)
  from a have ae: "ai_will_eat_of g = Inr True"
    by (cases "body a") (simp_all add: ai_will_eat_of_def first_cell_def)
  from ai_move_on_food [OF a(3)] a(4)
  have am: "ai_move a (food g) (Some (obstacles g)) = Inr a" by simp
  have mv: "update_move g (food g = food g) True = Inr g1"
    by (simp add: update_move_def move_total [OF p(1)] a(1) a(2) am move_total [OF a(3)] g1_def)
  have am_eq: "g1\<lparr>player := (player g1)\<lparr>score := score (player g1) + player_points g1\<rparr>,
                  food := x\<rparr> = after_meal g a x" for x
    by (simp add: g1_def after_meal_def player_points_def)
  have ok_eq: "food_ok (after_meal g a y) x = food_ok g1 x" for x y
    by (simp add: food_ok_def ai_cells_def g1_def after_meal_def)
  from update_player_food_returns [of rejected g1 c t rest] rej acc att [folded am_eq]
  obtain pu where pf: "update_player_food g1 (food g = food g) (draws rejected @ fst c # snd c # t @ rest) =
      Inr ((after_meal g a (drawn_cell c))\<lparr>power_up := pu\<rparr>, rest)"
    by (auto simp: am_eq ok_eq)
  define g2 where "g2 = (after_meal g a (drawn_cell c))\<lparr>power_up := pu\<rparr>"
  define g3 where "g3 = g2\<lparr>ai_snake := Some (a\<lparr>body := moved_body a True, score := score a + 10\<rparr>)\<rparr>"
  have af: "update_ai_food g2 (food g = food g) True rest = Inr (g3, rest)"
    by (simp add: update_ai_food_def g2_def g3_def after_meal_def)
  have b3: "body (player g3) \<noteq> []" "food g3 = drawn_cell c"
    "ai_snake g3 = Some (a\<lparr>body := moved_body a True, score := score a + 10\<rparr>)"
    by (simp_all add: g3_def g2_def after_meal_def)
  from update_power_up_total [OF b3(1), of now] obtain g4 where
    g4: "update_power_up g3 now = Inr g4" "food g4 = food g3"
    "body (player g4) = body (player g3)" "ai_snake g4 = ai_snake g3"
    by blast
  have "\<exists>g5 ok. update_collisions g4 = Inr (g5, ok) \<and> food g5 = food g4"
    by (rule update_collisions_total) (simp_all add: g4 b3)
  then obtain g5 ok where g5: "update_collisions g4 = Inr (g5, ok)" "food g5 = food g4"
    by blast
  from update_compose [OF h ae mv pf [folded g2_def] af g4(1) g5(1)] g5(2) g4(2) b3(2)
  show ?thesis by auto
qed

lemma grid_cell_drawn:
  assumes "x \<in> grid_cells"
  shows "drawn_cell (nat (fst x), nat (snd x)) = x"
  using assms by (cases x) (simp add: grid_cells_def drawn_cell_def)

lemma attempt_draws_miss: "attempt_draws g [2 ^ 52]"
  by (simp add: attempt_draws_def draw_below_def)

lemma meal_tick_effect:
  assumes u: "update g now r = Inr (g', ok, r')"
    and p: "hd (body (player g)) = food g"
    and a: "ai_snake g = Some a" "alive a" "hd (body a) = food g"
  shows "score (player g') =
           score (player g) + (if DOUBLE_POINTS \<in> dom (power_ups (player g)) then 20 else 10) \<and>
         (\<exists>a'. ai_snake g' = Some a' \<and> score a' = score a + 10 \<and> food g' \<notin> set (body a')) \<and>
         food g' \<noteq> food g \<and>
         food g' \<notin> set (body (player g')) \<and>
         food g' \<notin> obstacles g' \<and>
         (\<exists>gs rs. spawn_food gs r = Inr (gs\<lparr>food := food g'\<rparr>, rs) \<and>
            body (player gs) = body (player g') \<and> ai_cells gs = ai_cells g' \<and>
            obstacles gs = obstacles g')"
proof -
  from p have pe: "player_will_eat_of g" by (simp add: player_will_eat_of_def)
  from a have ae: "ai_eats g" by (simp add: ai_eats_def)
  from update_move_ex [OF u] obtain g1 where
    g1: "update_move g (player_will_eat_of g) (ai_eats g) = Inr g1" ..
  note e = update_effect [OF u g1]
  note m = update_move_facts [OF g1]
  from pe ae have or: "player_will_eat_of g \<or> ai_eats g" by simp
  from m(9) [OF a(1) a(2)] obtain d where
    a1: "ai_snake g1 = Some (a\<lparr>direction := d, body := moved_body (a\<lparr>direction := d\<rparr>) (ai_eats g)\<rparr>)"
    by blast
  from e(7) [OF a1] ae obtain b where
    a': "ai_snake g' = Some (a\<lparr>direction := d, body := moved_body (a\<lparr>direction := d\<rparr>) True,
           score := score a + 10, alive := b\<rparr>)"
    by auto
  have cells: "ai_cells g' = ai_cells g1"
    using a1 a' ae by (simp add: ai_cells_def)
  from e(9) [OF or] have f: "food g' \<notin> set (body (player g1))" "food g' \<notin> ai_cells g1"
    "food g' \<notin> obstacles g" by simp_all
  from m(1) p have "food g \<in> set (body (player g))" by (cases "body (player g)") auto
  with pe have "food g \<in> set (body (player g1))" by (simp add: m(2) moved_body_def)
  with f(1) have ne: "food g' \<noteq> food g" by auto
  from e(2) pe have sc: "score (player g') =
           score (player g) + (if DOUBLE_POINTS \<in> dom (power_ups (player g)) then 20 else 10)"
    by (simp add: player_points_def)
  from f(2) cells a' have aib: "\<exists>a'. ai_snake g' = Some a' \<and> score a' = score a + 10 \<and>
      food g' \<notin> set (body a')"
    by (simp add: ai_cells_def)
  from e(10) [OF or] have once: "\<exists>gs rs. spawn_food gs r = Inr (gs\<lparr>food := food g'\<rparr>, rs) \<and>
            body (player gs) = body (player g') \<and> ai_cells gs = ai_cells g' \<and>
            obstacles gs = obstacles g'"
    by (simp add: e(1) e(5) cells)
  from sc aib ne f(1) f(3) once show ?thesis
    by (simp add: e(1) e(5))
qed

section \<open>Evaluation on the concrete states\<close>

lemmas grid_defs = GRID_WIDTH_def GRID_HEIGHT_def WINDOW_WIDTH_def WINDOW_HEIGHT_def GRID_SIZE_def

lemmas update_defs = update_def first_cell_def ai_will_eat_of_def update_move_def move_def
  update_player_food_def update_ai_food_def update_power_up_def update_collisions_def
  check_collision_def new_Snake_def new_PowerUp_def Let_def

lemma classic_start_tick: "update classic_start 0 [] = Inr (classic_next, True, [])"
  by (simp add: classic_start_def classic_next_def update_defs grid_defs)

lemma battle_meet_tick:
  "update battle_meet 0 [5, 7, 9000000000000000] = Inr (battle_meet_next, True, [])"
  by (simp add: battle_meet_def battle_meet_next_def update_defs grid_defs ai_move_def
      bfs_path_def spawn_food.simps)

lemma pickup_tick: "update pickup_state 42 [] = Inr (pickup_next, True, [])"
  by (simp add: pickup_state_def pickup_next_def update_defs grid_defs)

lemma wall_tick: "update wall_state 0 [] = Inr (wall_next, False, [])"
  by (simp add: wall_state_def wall_next_def update_defs grid_defs)

lemmas bfs_eval = bfs_path_def bfs_loop.simps expand_def try_visit_def Direction_members_def
  GRID_WIDTH_def GRID_HEIGHT_def WINDOW_WIDTH_def WINDOW_HEIGHT_def GRID_SIZE_def Let_def

lemma corner_ai_right: "bfs_path corner_ai (0, 0) (1, 0) None = Some [(0, 0), (1, 0)]"
  by (simp add: corner_ai_def new_Snake_def bfs_eval)

lemma corner_ai_diagonal:
  "bfs_path corner_ai (0, 0) (1, 1) None = Some [(0, 0), (0, 1), (1, 1)]"
  by (simp add: corner_ai_def new_Snake_def bfs_eval)

lemma corner_ai_walled:
  "bfs_path corner_ai (0, 0) (1, 1) (Some {(0, 1), (1, 0)}) = None"
  by (simp add: corner_ai_def new_Snake_def bfs_eval)

lemma rival_route:
  "route (body corner_ai) (obstacle_set None) (0, 0) (1, 1) [(0, 0), (1, 0), (1, 1)]"
proof -
  have w: "walk (body corner_ai) (obstacle_set None) (0, 0) [RIGHT, DOWN]"
    by (simp add: walk_def step_cell_def free_cell_def corner_ai_def new_Snake_def
        obstacle_set_def GRID_WIDTH_def GRID_HEIGHT_def WINDOW_WIDTH_def WINDOW_HEIGHT_def
        GRID_SIZE_def)
  from route_of_walk [OF w] show ?thesis
    by (simp add: step_cell_def)
qed

lemma battle_meet_retry_tick:
  "update battle_meet 0 [8, 7, 7, 8, 7, 7, 5, 7, 9000000000000000] =
     Inr (battle_meet_next, True, [])"
  by (simp add: battle_meet_def battle_meet_next_def update_defs grid_defs ai_move_def
      bfs_path_def spawn_food.simps)

lemma obstacle_ticks:
  "update obstacle_start 0 [] = Inr (obstacle_1, True, [])"
  "update obstacle_1 0 [21, 15, 21, 16, 22, 15, 23, 15, 9000000000000000] =
     Inr (obstacle_2, True, [])"
  "update obstacle_2 0 [] = Inr (obstacle_3, True, [])"
  by (simp_all add: obstacle_start_def obstacle_1_def obstacle_2_def obstacle_3_def update_defs
      grid_defs spawn_food.simps)

lemma battle_before_tick: "update battle_before 0 [] = Inr (battle_meet, True, [])"
  by (simp add: battle_before_def battle_meet_def update_defs grid_defs ai_move_def bfs_eval)

section \<open>Movement and collision\<close>

text \<open>
  Claim C4. For a snake with a non-empty body, \<open>move\<close> raises nothing, puts the cell
  "current head plus the unit delta of the current direction" in front of the body and drops
  the last cell exactly when \<open>grow_flag\<close> is false; the length grows by one when
  \<open>grow_flag\<close> is true and stays the same otherwise. Nothing but the body changes.
\<close>

theorem move_prepends_head:
  assumes "body s \<noteq> []"
  shows "\<exists>s'. move s grow_flag = Inr s' \<and>
           body s' = (fst (hd (body s)) + fst (delta (direction s)),
                      snd (hd (body s)) + snd (delta (direction s))) #
                     (if grow_flag then body s else butlast (body s)) \<and>
           length (body s') = (if grow_flag then length (body s) + 1 else length (body s)) \<and>
           s' = s\<lparr>body := body s'\<rparr>"
proof -
  from assms obtain hx hy rest where b: "body s = (hx, hy) # rest"
    by (cases "body s") auto
  obtain dx dy where d: "delta (direction s) = (dx, dy)"
    by (cases "delta (direction s)")
  show ?thesis
    by (simp add: move_def b d Let_def)
qed

theorem move_prepends_head_witness:
  "body (new_Snake 5 5 False) \<noteq> [] \<and>
   (\<exists>s'. move (new_Snake 5 5 False) True = Inr s' \<and> body s' = [(6, 5), (5, 5)] \<and>
      length (body s') = 2) \<and>
   (\<exists>s'. move (new_Snake 5 5 False) False = Inr s' \<and> body s' = [(6, 5)] \<and>
      length (body s') = 1)"
  using move_prepends_head [of "new_Snake 5 5 False" True]
    move_prepends_head [of "new_Snake 5 5 False" False]
  by (auto simp add: new_Snake_def)

text \<open>
  Claim C5. For a snake with a non-empty body, \<open>check_collision\<close> answers true exactly when
  the head lies outside the grid, or equals a later cell of the body, or lies in the
  obstacle set (an absent argument counts as no obstacles). The function returns the answer
  alone: there is no snake state in its result, as the method assigns to nothing.
\<close>

theorem check_collision_iff:
  assumes "body s \<noteq> []"
  shows "check_collision s obs =
           Inr (fst (hd (body s)) < 0 \<or> fst (hd (body s)) \<ge> GRID_WIDTH \<or>
                snd (hd (body s)) < 0 \<or> snd (hd (body s)) \<ge> GRID_HEIGHT \<or>
                hd (body s) \<in> set (tl (body s)) \<or>
                hd (body s) \<in> (case obs of None \<Rightarrow> {} | Some os \<Rightarrow> os))"
proof -
  from assms obtain hx hy rest where b: "body s = (hx, hy) # rest"
    by (cases "body s") auto
  show ?thesis
    by (cases obs) (auto simp: check_collision_def b)
qed

text \<open>
  The two scenarios of the claim: a player whose head is at \<open>(0, 5)\<close> moves left and then
  collides with the wall, and a snake of length four whose head equals its third body cell
  collides with itself.
\<close>

theorem check_collision_iff_witness:
  "body ((new_Snake 0 5 False)\<lparr>body := [(-1, 5)], direction := LEFT\<rparr>) \<noteq> [] \<and>
   move ((new_Snake 0 5 False)\<lparr>direction := LEFT\<rparr>) False =
     Inr ((new_Snake 0 5 False)\<lparr>body := [(-1, 5)], direction := LEFT\<rparr>) \<and>
   check_collision ((new_Snake 0 5 False)\<lparr>body := [(-1, 5)], direction := LEFT\<rparr>) (Some {}) =
     Inr True \<and>
   check_collision ((new_Snake 3 3 False)\<lparr>body := [(3, 3), (3, 4), (3, 3), (2, 3)]\<rparr>) None =
     Inr True \<and>
   check_collision ((new_Snake 3 3 False)\<lparr>body := [(3, 3), (3, 4), (4, 4), (4, 3)]\<rparr>) None =
     Inr False"
  using check_collision_iff [of "(new_Snake 0 5 False)\<lparr>body := [(-1, 5)], direction := LEFT\<rparr>" "Some {}"]
    check_collision_iff [of "(new_Snake 3 3 False)\<lparr>body := [(3, 3), (3, 4), (3, 3), (2, 3)]\<rparr>" None]
    check_collision_iff [of "(new_Snake 3 3 False)\<lparr>body := [(3, 3), (3, 4), (4, 4), (4, 3)]\<rparr>" None]
  by (simp add: new_Snake_def move_def GRID_WIDTH_def GRID_HEIGHT_def WINDOW_WIDTH_def
      WINDOW_HEIGHT_def GRID_SIZE_def)

section \<open>The AI's path search\<close>

text \<open>
  Claim C1, as amended. \<open>bfs_path\<close> returns \<open>None\<close> exactly when there is no route from start
  to goal, a route being a sequence of 4-adjacent cells from start to goal inclusive whose
  cells after the first are inside the grid, outside the obstacle set and outside the
  snake's body. Otherwise it returns a route that is no longer than any other route, and
  every other route of the same length leaves the returned one, at the first step where the
  two differ, by a direction that comes later in the order UP, DOWN, LEFT, RIGHT.
\<close>

theorem bfs_path_shortest:
  "(bfs_path s start goal obstacles_arg = None \<longleftrightarrow>
      (\<forall>q. \<not> route (body s) (obstacle_set obstacles_arg) start goal q)) \<and>
   (\<forall>p. bfs_path s start goal obstacles_arg = Some p \<longrightarrow>
      route (body s) (obstacle_set obstacles_arg) start goal p \<and>
      (\<forall>q. route (body s) (obstacle_set obstacles_arg) start goal q \<longrightarrow>
         length p \<le> length q \<and>
         (length q = length p \<longrightarrow> q = p \<or> earlier (moves p) (moves q))))"
proof -
  let ?O = "obstacle_set obstacles_arg"
  note c = bfs_path_correct [where s = s and start = start and goal = goal and
    obstacles_arg = obstacles_arg, folded obstacle_set_def]
  have some: "route (body s) ?O start goal p \<and>
      (\<forall>q. route (body s) ?O start goal q \<longrightarrow>
         length p \<le> length q \<and>
         (length q = length p \<longrightarrow> q = p \<or> earlier (moves p) (moves q)))"
    if p: "bfs_path s start goal obstacles_arg = Some p" for p
  proof -
    from c p obtain ds where ds: "p = trace start ds" and b: "best_walk (body s) ?O start goal ds"
      by auto
    from b have w: "walk (body s) ?O start ds" and e: "end_of start ds = goal"
      and least: "\<And>w. walk (body s) ?O start w \<Longrightarrow> end_of start w = goal \<Longrightarrow>
         w = ds \<or> (ds, w) \<in> before"
      by (auto simp: best_walk_def)
    from route_of_walk [OF w] e ds have r: "route (body s) ?O start goal p" by simp
    have "length p \<le> length q \<and> (length q = length p \<longrightarrow> q = p \<or> earlier (moves p) (moves q))"
      if q: "route (body s) ?O start goal q" for q
    proof -
      from walk_of_route [OF q] obtain w where w: "q = trace start w"
        "walk (body s) ?O start w" "end_of start w = goal" by blast
      from least [OF w(2) w(3)] show ?thesis
      proof
        assume "w = ds"
        with w(1) ds show ?thesis by simp
      next
        assume bf: "(ds, w) \<in> before"
        from before_length [OF bf] have "length p \<le> length q" by (simp add: ds w(1))
        moreover have "earlier (moves p) (moves q)" if "length q = length p"
          using before_same_length [OF bf] that by (simp add: ds w(1))
        ultimately show ?thesis by simp
      qed
    qed
    with r show ?thesis by simp
  qed
  have none: "\<not> route (body s) ?O start goal q"
    if n: "bfs_path s start goal obstacles_arg = None" for q
  proof
    assume "route (body s) ?O start goal q"
    from walk_of_route [OF this] obtain w where "walk (body s) ?O start w" "end_of start w = goal"
      by blast
    with c n show False by simp
  qed
  show ?thesis
  proof (intro conjI allI impI iffI)
    fix q assume "bfs_path s start goal obstacles_arg = None"
    then show "\<not> route (body s) ?O start goal q" by (rule none)
  next
    assume no: "\<forall>q. \<not> route (body s) ?O start goal q"
    show "bfs_path s start goal obstacles_arg = None"
    proof (cases "bfs_path s start goal obstacles_arg")
      case None
      then show ?thesis .
    next
      case (Some p)
      from some [OF Some] no show ?thesis by blast
    qed
  next
    fix p assume "bfs_path s start goal obstacles_arg = Some p"
    from some [OF this] show "route (body s) ?O start goal p" by simp
  next
    fix p q assume "bfs_path s start goal obstacles_arg = Some p"
      and "route (body s) ?O start goal q"
    with some show "length p \<le> length q" by blast
  next
    fix p q assume "bfs_path s start goal obstacles_arg = Some p"
      and "route (body s) ?O start goal q" and "length q = length p"
    with some show "q = p \<or> earlier (moves p) (moves q)" by blast
  qed
qed

theorem bfs_path_shortest_witness:
  "bfs_path corner_ai (0, 0) (1, 1) None = Some [(0, 0), (0, 1), (1, 1)] \<and>
   route (body corner_ai) (obstacle_set None) (0, 0) (1, 1) [(0, 0), (0, 1), (1, 1)] \<and>
   route (body corner_ai) (obstacle_set None) (0, 0) (1, 1) [(0, 0), (1, 0), (1, 1)] \<and>
   earlier (moves [(0, 0), (0, 1), (1, 1)]) (moves [(0, 0), (1, 0), (1, 1)]) \<and>
   moves [(0, 0), (0, 1), (1, 1)] = [DOWN, RIGHT] \<and>
   moves [(0, 0), (1, 0), (1, 1)] = [RIGHT, DOWN] \<and>
   bfs_path corner_ai (0, 0) (1, 1) (Some {(0, 1), (1, 0)}) = None \<and>
   (\<forall>q. \<not> route (body corner_ai) (obstacle_set (Some {(0, 1), (1, 0)})) (0, 0) (1, 1) q)"
proof -
  note a = bfs_path_shortest [of corner_ai "(0, 0)" "(1, 1)" None]
  note b = bfs_path_shortest [of corner_ai "(0, 0)" "(1, 1)" "Some {(0, 1), (1, 0)}"]
  from a corner_ai_diagonal
  have r: "route (body corner_ai) (obstacle_set None) (0, 0) (1, 1) [(0, 0), (0, 1), (1, 1)]"
    and least: "\<And>q. route (body corner_ai) (obstacle_set None) (0, 0) (1, 1) q \<Longrightarrow>
       length q = 3 \<Longrightarrow> q = [(0, 0), (0, 1), (1, 1)] \<or> earlier (moves [(0, 0), (0, 1), (1, 1)]) (moves q)"
    by auto
  from least [OF rival_route]
  have e: "earlier (moves [(0, 0), (0, 1), (1, 1)]) (moves [(0, 0), (1, 0), (1, 1)])" by simp
  from b corner_ai_walled
  have n: "\<forall>q. \<not> route (body corner_ai) (obstacle_set (Some {(0, 1), (1, 0)})) (0, 0) (1, 1) q"
    by simp
  have m: "moves [(0, 0), (0, 1), (1, 1)] = [DOWN, RIGHT]"
    "moves [(0, 0), (1, 0), (1, 1)] = [RIGHT, DOWN]"
    by (simp_all add: direction_between_def step_cell_def)
  from corner_ai_diagonal corner_ai_walled r rival_route e n m show ?thesis by simp
qed

text \<open>
  Claim C1 as stated fails: the start cell is part of the returned sequence and is never
  tested. For the AI snake in the corner, whose head is the start cell and lies in its own
  body, the returned sequence contains that blocked cell.
\<close>

theorem bfs_path_start_counterexample:
  "bfs_path corner_ai (0, 0) (1, 0) None = Some [(0, 0), (1, 0)] \<and>
   (0, 0) \<in> set (body corner_ai) \<and> (0, 0) \<in> set [(0, 0), (1, 0)]"
  using corner_ai_right by (simp add: corner_ai_def new_Snake_def)

text \<open>
  Claim C7. For an AI snake with a non-empty body: when \<open>bfs_path\<close> from the head returns a
  path of more than one cell, \<open>ai_move\<close> raises nothing and sets the direction to the one
  whose unit delta is the second cell of the path minus the first; when \<open>bfs_path\<close> returns
  \<open>None\<close> or a path of one cell, \<open>ai_move\<close> raises nothing and returns the snake unchanged.
\<close>

theorem ai_move_follows_path:
  assumes "is_ai s" and "body s = head # rest"
  shows "(\<forall>path. bfs_path s head food_pos obs = Some path \<and> length path > 1 \<longrightarrow>
           (\<exists>d. delta d = (fst (path ! 1) - fst (path ! 0), snd (path ! 1) - snd (path ! 0)) \<and>
                ai_move s food_pos obs = Inr (s\<lparr>direction := d\<rparr>))) \<and>
         (bfs_path s head food_pos obs = None \<or>
          (\<exists>path. bfs_path s head food_pos obs = Some path \<and> length path \<le> 1) \<longrightarrow>
            ai_move s food_pos obs = Inr s)"
proof (intro conjI allI impI)
  fix path
  assume p: "bfs_path s head food_pos obs = Some path \<and> length path > 1"
  from bfs_path_correct [where s = s and start = head and goal = food_pos and
      obstacles_arg = obs] p obtain ds where ds: "path = trace head ds"
    by auto
  with p obtain d ds' where dd: "ds = d # ds'" by (cases ds) auto
  have p0: "path ! 0 = head" and p1: "path ! Suc 0 = step_cell head d"
    using trace_second [of head d ds'] by (simp_all add: ds dd)
  have dl: "delta d = (fst (path ! 1) - fst (path ! 0), snd (path ! 1) - snd (path ! 0))"
    by (simp add: p0 p1 step_cell_def)
  from p have ne: "path \<noteq> []" by auto
  have "ai_move s food_pos obs = Inr (s\<lparr>direction := d\<rparr>)"
    using assms p p1 ne by (cases d) (simp_all add: ai_move_def Let_def step_cell_def)
  with dl show "\<exists>d. delta d = (fst (path ! 1) - fst (path ! 0), snd (path ! 1) - snd (path ! 0)) \<and>
                ai_move s food_pos obs = Inr (s\<lparr>direction := d\<rparr>)"
    by blast
next
  assume "bfs_path s head food_pos obs = None \<or>
          (\<exists>path. bfs_path s head food_pos obs = Some path \<and> length path \<le> 1)"
  with assms show "ai_move s food_pos obs = Inr s"
    by (auto simp: ai_move_def)
qed

theorem ai_move_follows_path_witness:
  "is_ai corner_ai \<and> body corner_ai = [(0, 0)] \<and>
   bfs_path corner_ai (0, 0) (1, 1) None = Some [(0, 0), (0, 1), (1, 1)] \<and>
   ai_move corner_ai (1, 1) None = Inr (corner_ai\<lparr>direction := DOWN\<rparr>) \<and>
   bfs_path corner_ai (0, 0) (1, 1) (Some {(0, 1), (1, 0)}) = None \<and>
   ai_move corner_ai (1, 1) (Some {(0, 1), (1, 0)}) = Inr corner_ai"
proof -
  have i: "is_ai corner_ai" and b: "body corner_ai = (0, 0) # []"
    by (simp_all add: corner_ai_def new_Snake_def)
  note t1 = ai_move_follows_path [OF i b, of "(1, 1)" None]
  note t2 = ai_move_follows_path [OF i b, of "(1, 1)" "Some {(0, 1), (1, 0)}"]
  from t1 corner_ai_diagonal obtain d where
    d: "delta d = (0, 1)" "ai_move corner_ai (1, 1) None = Inr (corner_ai\<lparr>direction := d\<rparr>)"
    by auto
  from d(1) have "d = DOWN" by (cases d) simp_all
  with d(2) t2 corner_ai_walled corner_ai_diagonal i b show ?thesis by simp
qed

section \<open>The simulation tick\<close>

text \<open>
  Claim C9. A tick that returns never removes a key from the player's power-up dictionary:
  every kind that is active before \<open>update\<close> is active after it.
\<close>

theorem update_keeps_power_ups:
  assumes "update g now r = Inr (g', ok, r')"
  shows "dom (power_ups (player g)) \<subseteq> dom (power_ups (player g'))"
proof -
  from update_move_ex [OF assms] obtain g1 where
    g1: "update_move g (player_will_eat_of g) (ai_eats g) = Inr g1" ..
  from update_effect(4) [OF assms g1] show ?thesis .
qed

theorem update_keeps_power_ups_witness:
  "update pickup_state 42 [] = Inr (pickup_next, True, []) \<and>
   dom (power_ups (player pickup_state)) = {DOUBLE_POINTS} \<and>
   dom (power_ups (player pickup_next)) = {DOUBLE_POINTS, INVINCIBILITY} \<and>
   dom (power_ups (player pickup_state)) \<subseteq> dom (power_ups (player pickup_next))"
  using update_keeps_power_ups [OF pickup_tick] pickup_tick
  by (auto simp: pickup_state_def pickup_next_def new_Snake_def)

text \<open>
  Claim C3. Let the player's head and the head of the living AI snake both be on the food
  cell before the tick. Then every tick that returns leaves the player's score up by 10, or
  by 20 when \<open>DOUBLE_POINTS\<close> is in the player's dictionary, the AI's score up by 10, and
  the food on a cell that differs from the old one, lies in neither body and on no
  obstacle, and is the cell that one run of \<open>spawn_food\<close> picks from the start of the random
  tape on the moved snakes: the AI's meal triggers no second respawn. And the tick does
  return: on every tape that holds any number of rejected cells, then an accepted cell
  \<open>c\<close>, then the draws of a power-up attempt that ends, \<open>update\<close> returns with the food at
  \<open>c\<close> and the rest of the tape; so every free cell of the grid is the new food for some
  tape.
\<close>

theorem simultaneous_eat:
  assumes p: "body (player g) \<noteq> []" "hd (body (player g)) = food g"
    and a: "ai_snake g = Some a" "alive a" "body a \<noteq> []" "hd (body a) = food g"
  shows "(\<forall>r g' ok r'. update g now r = Inr (g', ok, r') \<longrightarrow>
           score (player g') =
             score (player g) + (if DOUBLE_POINTS \<in> dom (power_ups (player g)) then 20 else 10) \<and>
           (\<exists>a'. ai_snake g' = Some a' \<and> score a' = score a + 10 \<and> food g' \<notin> set (body a')) \<and>
           food g' \<noteq> food g \<and>
           food g' \<notin> set (body (player g')) \<and>
           food g' \<notin> obstacles g' \<and>
           (\<exists>gs rs. spawn_food gs r = Inr (gs\<lparr>food := food g'\<rparr>, rs) \<and>
              body (player gs) = body (player g') \<and> ai_cells gs = ai_cells g' \<and>
              obstacles gs = obstacles g')) \<and>
         (\<forall>rejected c t rest.
            (\<forall>q \<in> set rejected. \<not> food_ok (after_meal g a (drawn_cell c)) (drawn_cell q)) \<and>
            food_ok (after_meal g a (drawn_cell c)) (drawn_cell c) \<and>
            attempt_draws (after_meal g a (drawn_cell c)) t \<longrightarrow>
            (\<exists>g' ok. update g now (draws rejected @ fst c # snd c # t @ rest) = Inr (g', ok, rest) \<and>
               food g' = drawn_cell c)) \<and>
         (\<forall>x \<in> grid_cells. food_ok (after_meal g a x) x \<longrightarrow>
            (\<exists>r g' ok r'. update g now r = Inr (g', ok, r') \<and> food g' = x))"
proof (intro conjI allI impI ballI)
  fix r g' ok r'
  assume u: "update g now r = Inr (g', ok, r')"
  note e = meal_tick_effect [OF u p(2) a(1) a(2) a(4)]
  from e show "score (player g') =
             score (player g) + (if DOUBLE_POINTS \<in> dom (power_ups (player g)) then 20 else 10)"
    by blast
  from e show "\<exists>a'. ai_snake g' = Some a' \<and> score a' = score a + 10 \<and> food g' \<notin> set (body a')"
    by blast
  from e show "food g' \<noteq> food g" by blast
  from e show "food g' \<notin> set (body (player g'))" by blast
  from e show "food g' \<notin> obstacles g'" by blast
  from e show "\<exists>gs rs. spawn_food gs r = Inr (gs\<lparr>food := food g'\<rparr>, rs) \<and>
              body (player gs) = body (player g') \<and> ai_cells gs = ai_cells g' \<and>
              obstacles gs = obstacles g'" by blast
next
  fix rejected c t rest
  assume h: "(\<forall>q \<in> set rejected. \<not> food_ok (after_meal g a (drawn_cell c)) (drawn_cell q)) \<and>
            food_ok (after_meal g a (drawn_cell c)) (drawn_cell c) \<and>
            attempt_draws (after_meal g a (drawn_cell c)) t"
  then have "\<forall>q \<in> set rejected. \<not> food_ok (after_meal g a (drawn_cell c)) (drawn_cell q)"
    "food_ok (after_meal g a (drawn_cell c)) (drawn_cell c)"
    "attempt_draws (after_meal g a (drawn_cell c)) t" by simp_all
  from meal_tick_returns [OF p a this]
  show "\<exists>g' ok. update g now (draws rejected @ fst c # snd c # t @ rest) = Inr (g', ok, rest) \<and>
               food g' = drawn_cell c" .
next
  fix x
  assume x: "x \<in> grid_cells" and ok: "food_ok (after_meal g a x) x"
  let ?c = "(nat (fst x), nat (snd x))"
  from grid_cell_drawn [OF x] have d: "drawn_cell ?c = x" .
  have rj: "\<forall>q \<in> set []. \<not> food_ok (after_meal g a (drawn_cell ?c)) (drawn_cell q)" by simp
  have ac: "food_ok (after_meal g a (drawn_cell ?c)) (drawn_cell ?c)" using ok d by simp
  have at: "attempt_draws (after_meal g a (drawn_cell ?c)) [2 ^ 52]"
    by (rule attempt_draws_miss)
  from meal_tick_returns [OF p a rj ac at, of now "[]"]
  have "\<exists>g' ok. update g now (draws [] @ fst ?c # snd ?c # [2 ^ 52] @ []) = Inr (g', ok, []) \<and>
          food g' = drawn_cell ?c" .
  with d show "\<exists>r g' ok r'. update g now r = Inr (g', ok, r') \<and> food g' = x" by metis
qed

text \<open>
  The tick of \<open>battle_meet\<close> on a tape whose first three cells are the two new heads and the
  old food cell, all rejected, before \<open>(5, 7)\<close> is accepted; and the free corner \<open>(0, 0)\<close> as the
  new food of some tape.
\<close>

theorem simultaneous_eat_witness:
  "body (player battle_meet) \<noteq> [] \<and> hd (body (player battle_meet)) = food battle_meet \<and>
   ai_snake battle_meet = Some ((new_Snake 7 7 True)\<lparr>direction := DOWN\<rparr>) \<and>
   update battle_meet 0 [8, 7, 7, 8, 7, 7, 5, 7, 9000000000000000] =
     Inr (battle_meet_next, True, []) \<and>
   score (player battle_meet_next) = score (player battle_meet) + 20 \<and>
   food battle_meet = (7, 7) \<and> food battle_meet_next = (5, 7) \<and>
   (\<exists>g' ok. update battle_meet 0 (draws [(8, 7), (7, 8), (7, 7)] @ [5, 7, 9000000000000000]) =
      Inr (g', ok, []) \<and> food g' = (5, 7)) \<and>
   (0, 0) \<in> grid_cells \<and>
   (\<exists>r g' ok r'. update battle_meet 0 r = Inr (g', ok, r') \<and> food g' = (0, 0))"
proof -
  let ?a = "(new_Snake 7 7 True)\<lparr>direction := DOWN\<rparr>"
  have p: "body (player battle_meet) \<noteq> []" "hd (body (player battle_meet)) = food battle_meet"
    by (simp_all add: battle_meet_def new_Snake_def)
  have a: "ai_snake battle_meet = Some ?a" "alive ?a" "body ?a \<noteq> []"
    "hd (body ?a) = food battle_meet"
    by (simp_all add: battle_meet_def new_Snake_def)
  note t = simultaneous_eat [OF p a, of 0]
  have cells: "drawn_cell (8, 7) = (8, 7)" "drawn_cell (7, 8) = (7, 8)"
    "drawn_cell (7, 7) = (7, 7)" "drawn_cell (5, 7) = (5, 7)"
    by (simp_all add: drawn_cell_def grid_defs)
  have occ: "\<not> food_ok (after_meal battle_meet ?a (5, 7)) (8, 7)"
    "\<not> food_ok (after_meal battle_meet ?a (5, 7)) (7, 8)"
    "\<not> food_ok (after_meal battle_meet ?a (5, 7)) (7, 7)"
    "food_ok (after_meal battle_meet ?a (5, 7)) (5, 7)"
    by (simp_all add: food_ok_after_meal moved_body_def battle_meet_def new_Snake_def)
  have att: "attempt_draws (after_meal battle_meet ?a (5, 7)) [9000000000000000]"
    by (simp add: attempt_draws_def draw_below_def)
  note t2 = t [THEN conjunct2, THEN conjunct1, rule_format,
      of "[(8, 7), (7, 8), (7, 7)]" "(5, 7)" "[9000000000000000]" "[]"]
  from t2 occ att have ret: "\<exists>g' ok. update battle_meet 0
      (draws [(8, 7), (7, 8), (7, 7)] @ [5, 7, 9000000000000000]) = Inr (g', ok, []) \<and>
      food g' = (5, 7)"
    by (simp add: cells)
  from t [THEN conjunct1, rule_format, OF battle_meet_retry_tick]
  have sc: "score (player battle_meet_next) =
        score (player battle_meet) +
        (if DOUBLE_POINTS \<in> dom (power_ups (player battle_meet)) then 20 else 10)"
    by blast
  have dp: "DOUBLE_POINTS \<in> dom (power_ups (player battle_meet))"
    by (simp add: battle_meet_def new_Snake_def)
  have gc: "(0, 0) \<in> grid_cells" by (simp add: grid_cells_def grid_defs)
  have fr: "food_ok (after_meal battle_meet ?a (0, 0)) (0, 0)"
    by (simp add: food_ok_after_meal moved_body_def battle_meet_def new_Snake_def)
  from t [THEN conjunct2, THEN conjunct2, rule_format, OF gc fr]
  have far: "\<exists>r g' ok r'. update battle_meet 0 r = Inr (g', ok, r') \<and> food g' = (0, 0)" .
  have "score (player battle_meet_next) = score (player battle_meet) + 20"
    using sc dp by simp
  then show ?thesis using battle_meet_retry_tick p a(1) ret gc far
    by (simp add: battle_meet_next_def battle_meet_def)
qed

text \<open>
  Claim C2, as amended. After every tick of a round in play, whatever \<open>update\<close> returns,
  the food is on no obstacle and on no cell of a snake behind its head. After a tick in
  which the player or the living AI snake has eaten, the food is on no cell of a snake at
  all, heads included. Only after a tick without a meal, in which the food has not moved,
  can a head be on the food: that snake has just stepped onto it, and \<open>update\<close> notices the
  meal before moving in the next tick.
\<close>

theorem food_after_tick:
  assumes "active_round g" and "handle_input g evs = (g1, True)"
    and "update g1 now r = Inr (g2, ok, r')"
  shows "food g2 \<notin> obstacles g2 \<and>
         food g2 \<notin> set (tl (body (player g2))) \<and>
         (\<forall>a. ai_snake g2 = Some a \<longrightarrow> food g2 \<notin> set (tl (body a))) \<and>
         (player_will_eat_of g1 \<or> ai_eats g1 \<longrightarrow>
            food g2 \<notin> set (body (player g2)) \<and>
            (\<forall>a. ai_snake g2 = Some a \<longrightarrow> food g2 \<notin> set (body a))) \<and>
         (\<not> player_will_eat_of g1 \<and> \<not> ai_eats g1 \<longrightarrow> food g2 = food g1)"
proof -
  from active_round_food_clear [OF assms(1)] have "food_clear g" .
  from food_clear_handle_input [OF assms(2) this] have "food_clear g1" .
  from food_clear_update [OF this assms(3)] have c: "food_clear g2" .
  from update_move_ex [OF assms(3)] obtain gm where
    gm: "update_move g1 (player_will_eat_of g1) (ai_eats g1) = Inr gm" ..
  note e = update_effect [OF assms(3) gm]
  have eat: "food g2 \<notin> set (body (player g2)) \<and>
            (\<forall>a. ai_snake g2 = Some a \<longrightarrow> food g2 \<notin> set (body a))"
    if m: "player_will_eat_of g1 \<or> ai_eats g1"
  proof -
    from e(9) [OF m] have f: "food g2 \<notin> set (body (player gm))" "food g2 \<notin> ai_cells gm"
      by simp_all
    have "food g2 \<notin> set (body a)" if a: "ai_snake g2 = Some a" for a
    proof (cases "ai_snake gm")
      case None
      from e(6) [OF None] a show ?thesis by simp
    next
      case (Some am)
      from e(7) [OF Some] a have "body a = body am" by auto
      with f(2) Some show ?thesis by (simp add: ai_cells_def)
    qed
    with f(1) show ?thesis by (simp add: e(1))
  qed
  from c eat e(8) show ?thesis
    by (simp add: food_clear_def)
qed

text \<open>
  The round with obstacles at the tick of the meal and at the next tick, which brings the
  head of the two-cell player onto the new food, and the AI battle at the tick of the meal.
\<close>

theorem food_after_tick_witness:
  "active_round obstacle_1 \<and> handle_input obstacle_1 [] = (obstacle_1, True) \<and>
   update obstacle_1 0 [21, 15, 21, 16, 22, 15, 23, 15, 9000000000000000] =
     Inr (obstacle_2, True, []) \<and>
   player_will_eat_of obstacle_1 \<and>
   body (player obstacle_2) = [(22, 15), (21, 15)] \<and> food obstacle_2 = (23, 15) \<and>
   obstacles obstacle_2 = {(21, 16), (5, 5)} \<and>
   food obstacle_2 \<notin> set (body (player obstacle_2)) \<and> food obstacle_2 \<notin> obstacles obstacle_2 \<and>
   active_round obstacle_2 \<and> handle_input obstacle_2 [] = (obstacle_2, True) \<and>
   update obstacle_2 0 [] = Inr (obstacle_3, True, []) \<and>
   \<not> player_will_eat_of obstacle_2 \<and> \<not> ai_eats obstacle_2 \<and>
   body (player obstacle_3) = [(23, 15), (22, 15)] \<and> food obstacle_3 = food obstacle_2 \<and>
   food obstacle_3 \<notin> set (tl (body (player obstacle_3))) \<and>
   food obstacle_3 \<notin> obstacles obstacle_3 \<and>
   active_round battle_meet \<and> handle_input battle_meet [] = (battle_meet, True) \<and>
   update battle_meet 0 [5, 7, 9000000000000000] = Inr (battle_meet_next, True, []) \<and>
   ai_eats battle_meet \<and>
   ai_snake battle_meet_next =
     Some ((new_Snake 7 7 True)\<lparr>body := [(7, 8), (7, 7)], direction := DOWN, score := 10\<rparr>) \<and>
   food battle_meet_next \<notin> set [(7, 8), (7, 7)] \<and>
   food battle_meet_next \<notin> set (body (player battle_meet_next))"
proof -
  have s0: "spawn_food obstacle_start [21, 15] = Inr (obstacle_start, [])"
    by (simp add: spawn_food.simps obstacle_start_def new_Snake_def grid_defs)
  have "active_round (obstacle_start\<lparr>power_up := None\<rparr>)"
    using s0 by (rule active_round.start)
  then have a0: "active_round obstacle_start" by (simp add: obstacle_start_def)
  have h: "handle_input obstacle_start [] = (obstacle_start, True)"
    "handle_input obstacle_1 [] = (obstacle_1, True)"
    "handle_input obstacle_2 [] = (obstacle_2, True)"
    "handle_input battle_before [] = (battle_before, True)"
    "handle_input battle_meet [] = (battle_meet, True)"
    by simp_all
  from active_round.tick [OF a0 h(1) obstacle_ticks(1)] have a1: "active_round obstacle_1" .
  from active_round.tick [OF a1 h(2) obstacle_ticks(2)] have a2: "active_round obstacle_2" .
  have sb: "spawn_food battle_before [7, 7] = Inr (battle_before, [])"
    by (simp add: spawn_food.simps battle_before_def new_Snake_def grid_defs)
  have "active_round (battle_before\<lparr>power_up := None\<rparr>)"
    using sb by (rule active_round.start)
  then have b0: "active_round battle_before" by (simp add: battle_before_def)
  from active_round.tick [OF b0 h(4) battle_before_tick] have b1: "active_round battle_meet" .
  have e1: "player_will_eat_of obstacle_1"
    by (simp add: player_will_eat_of_def obstacle_1_def obstacle_start_def)
  have e2: "\<not> player_will_eat_of obstacle_2" "\<not> ai_eats obstacle_2"
    by (simp_all add: player_will_eat_of_def ai_eats_def obstacle_2_def obstacle_start_def)
  have e3: "ai_eats battle_meet"
    by (simp add: ai_eats_def battle_meet_def new_Snake_def)
  note t1 = food_after_tick [OF a1 h(2) obstacle_ticks(2)]
  note t2 = food_after_tick [OF a2 h(3) obstacle_ticks(3)]
  note t3 = food_after_tick [OF b1 h(5) battle_meet_tick]
  have sel: "body (player obstacle_2) = [(22, 15), (21, 15)]" "food obstacle_2 = (23, 15)"
    "obstacles obstacle_2 = {(21, 16), (5, 5)}"
    "body (player obstacle_3) = [(23, 15), (22, 15)]"
    "ai_snake battle_meet_next =
       Some ((new_Snake 7 7 True)\<lparr>body := [(7, 8), (7, 7)], direction := DOWN, score := 10\<rparr>)"
    by (simp_all add: obstacle_2_def obstacle_3_def obstacle_start_def battle_meet_next_def)
  from t3 e3 sel(5) have ai: "food battle_meet_next \<notin> set [(7, 8), (7, 7)]"
    "food battle_meet_next \<notin> set (body (player battle_meet_next))"
    by simp_all
  from t1 e1 have f2: "food obstacle_2 \<notin> set (body (player obstacle_2))"
    "food obstacle_2 \<notin> obstacles obstacle_2" by simp_all
  from t2 e2 have f3: "food obstacle_3 = food obstacle_2"
    "food obstacle_3 \<notin> set (tl (body (player obstacle_3)))"
    "food obstacle_3 \<notin> obstacles obstacle_3" by auto
  show ?thesis
    by (intro conjI a1 a2 b1 h obstacle_ticks battle_meet_tick e1 e2 e3 sel ai f2 f3)
qed

text \<open>
  Claim C2 as stated fails: from \<open>classic_start\<close> one tick moves the living player's head onto
  the food cell and the food stays where it is.
\<close>

theorem food_under_head_counterexample:
  "update classic_start 0 [] = Inr (classic_next, True, []) \<and>
   alive (player classic_next) \<and> food classic_next \<in> set (body (player classic_next))"
  using classic_start_tick by (simp add: classic_next_def new_Snake_def)

text \<open>
  Claim C10. Two games that differ only in the player's power-up dictionary, and agree on
  whether \<open>DOUBLE_POINTS\<close> is a key of it, take the same tick: the same error, or the same
  return value, the same rest of the random tape and the same state up to the dictionary.
  Which other kinds are present, and all time stamps, are irrelevant.
\<close>

theorem power_ups_noninterference:
  assumes "DOUBLE_POINTS \<in> dom m \<longleftrightarrow> DOUBLE_POINTS \<in> dom (power_ups (player g))"
  shows "\<exists>m'. update (with_power_ups g m) now r =
           (case update g now r of
              Inl e \<Rightarrow> Inl e
            | Inr (g', ok, r') \<Rightarrow> Inr (with_power_ups g' m', ok, r'))"
proof -
  have ae: "ai_will_eat_of (with_power_ups g m) = ai_will_eat_of g"
    by (simp add: ai_will_eat_of_def split: option.splits sum.splits)
  note start = update_def [of "with_power_ups g m"] update_def [of g] ae Let_def
  show ?thesis
  proof (cases "first_cell (body (player g))")
    case (Inl e)
    then show ?thesis by (simp add: start)
  next
    case h: (Inr h)
    show ?thesis
    proof (cases "ai_will_eat_of g")
      case (Inl e)
      with h show ?thesis by (simp add: start)
    next
      case b: (Inr b)
      show ?thesis
      proof (cases "update_move g (h = food g) b")
        case (Inl e)
        with h b show ?thesis by (simp add: start update_move_with_pu)
      next
        case g1: (Inr g1)
        from update_move_facts(2) [OF g1] assms
        have dp: "DOUBLE_POINTS \<in> dom m \<longleftrightarrow> DOUBLE_POINTS \<in> dom (power_ups (player g1))"
          by simp
        note pf = update_player_food_with_pu [OF dp, of "h = food g" r]
        show ?thesis
        proof (cases "update_player_food g1 (h = food g) r")
          case (Inl e)
          with h b g1 show ?thesis by (simp add: start update_move_with_pu pf)
        next
          case g2: (Inr g2r)
          obtain g2 r1 where g2r: "g2r = (g2, r1)" by (cases g2r)
          note af = update_ai_food_with_pu [of g2 m "h = food g" b r1]
          show ?thesis
          proof (cases "update_ai_food g2 (h = food g) b r1")
            case (Inl e)
            with h b g1 g2 g2r show ?thesis by (simp add: start update_move_with_pu pf af)
          next
            case g3: (Inr g3r)
            obtain g3 r2 where g3r: "g3r = (g3, r2)" by (cases g3r)
            from update_power_up_with_pu [of g3 m now] obtain f where
              pu: "update_power_up (with_power_ups g3 m) now =
                (case update_power_up g3 now of Inl e \<Rightarrow> Inl e
                 | Inr g' \<Rightarrow> Inr (with_power_ups g' (f m)))"
              by blast
            show ?thesis
            proof (cases "update_power_up g3 now")
              case (Inl e)
              with h b g1 g2 g2r g3 g3r show ?thesis
                by (simp add: start update_move_with_pu pf af pu)
            next
              case g4: (Inr g4)
              note co = update_collisions_with_pu [of g4 "f m"]
              show ?thesis
              proof (cases "update_collisions g4")
                case (Inl e)
                with h b g1 g2 g2r g3 g3r g4 show ?thesis
                  by (simp add: start update_move_with_pu pf af pu co)
              next
                case g5: (Inr g5r)
                obtain g5 ok where g5r: "g5r = (g5, ok)" by (cases g5r)
                from h b g1 g2 g2r g3 g3r g4 g5 g5r show ?thesis
                  by (intro exI [of _ "f m"]) (simp add: start update_move_with_pu pf af pu co)
              qed
            qed
          qed
        qed
      qed
    qed
  qed
qed

text \<open>
  The instance named in the claim: with \<open>INVINCIBILITY\<close> active the player still dies at
  the wall.
\<close>

theorem power_ups_noninterference_witness:
  "(DOUBLE_POINTS \<in> dom [INVINCIBILITY \<mapsto> (0::int)] \<longleftrightarrow>
      DOUBLE_POINTS \<in> dom (power_ups (player wall_state))) \<and>
   update wall_state 0 [] = Inr (wall_next, False, []) \<and>
   update (with_power_ups wall_state [INVINCIBILITY \<mapsto> 0]) 0 [] =
     Inr (with_power_ups wall_next [INVINCIBILITY \<mapsto> 0], False, []) \<and>
   \<not> alive (player (with_power_ups wall_next [INVINCIBILITY \<mapsto> 0]))"
proof -
  have d: "DOUBLE_POINTS \<in> dom [INVINCIBILITY \<mapsto> (0::int)] \<longleftrightarrow>
      DOUBLE_POINTS \<in> dom (power_ups (player wall_state))"
    by (simp add: wall_state_def new_Snake_def)
  from power_ups_noninterference [OF d, of 0 "[]"] obtain m' where
    "update (with_power_ups wall_state [INVINCIBILITY \<mapsto> 0]) 0 [] =
       Inr (with_power_ups wall_next m', False, [])"
    by (auto simp: wall_tick)
  moreover have "update (with_power_ups wall_state [INVINCIBILITY \<mapsto> 0]) 0 [] =
     Inr (with_power_ups wall_next [INVINCIBILITY \<mapsto> 0], False, [])"
    by (simp add: wall_state_def wall_next_def with_power_ups_def update_defs grid_defs)
  ultimately show ?thesis using d wall_tick
    by (simp add: wall_next_def with_power_ups_def)
qed

section \<open>Input handling and power-up placement\<close>

text \<open>
  Claim C6. A frame with one key never reverses the player (\<open>single_key_never_reverses\<close>),
  but the claim does not hold of \<open>handle_input\<close> on longer frames: each key is tested
  against the direction as already changed by the earlier keys of the same frame. With the
  player heading right, the keys up and left in one frame leave it heading left.
\<close>

theorem handle_input_reverses:
  "direction (player classic_start) = RIGHT \<and>
   handle_input classic_start [KEYDOWN K_UP, KEYDOWN K_LEFT] =
     (set_player_direction classic_start LEFT, True) \<and>
   direction (player (set_player_direction classic_start LEFT)) = LEFT"
  by (simp add: classic_start_def new_Snake_def set_player_direction_def)

text \<open>
  Claim C8. The claim does not hold of \<open>spawn_power_up\<close>: the loop tests the player's body,
  the food and the obstacles, and not the AI snake's body as \<open>spawn_food\<close> does. In the tick
  of \<open>battle_meet\<close> the player eats, the food moves to \<open>(5, 7)\<close>, both power-up draws succeed,
  and the draws 7, 8, 3 put a power-up on the cell \<open>(7, 8)\<close>, where the AI's head is.
\<close>

theorem spawn_power_up_on_ai_body:
  "update battle_meet 0 [5, 7, 0, 0, 7, 8, 3] =
     Inr (battle_meet_next\<lparr>power_up := Some (new_PowerUp 7 8 INVINCIBILITY)\<rparr>, True, []) \<and>
   spawn_power_up battle_meet_next [0, 7, 8, 3] =
     Inr (battle_meet_next\<lparr>power_up := Some (new_PowerUp 7 8 INVINCIBILITY)\<rparr>, []) \<and>
   ai_snake battle_meet_next =
     Some ((new_Snake 7 7 True)\<lparr>body := [(7, 8), (7, 7)], direction := DOWN, score := 10\<rparr>) \<and>
   (7, 8) \<in> set (body ((new_Snake 7 7 True)\<lparr>body := [(7, 8), (7, 7)], direction := DOWN, score := 10\<rparr>))"
  by (simp add: battle_meet_def battle_meet_next_def update_defs grid_defs ai_move_def
      bfs_path_def spawn_food.simps spawn_power_up_def spawn_power_up_loop.simps
      PowerUpType_members_def)

end
